theory Spec2Isabelle
  imports
    Main
    "HOL-Library.Multiset"
    "HOL-Library.Sublist"
    "HOL-Library.Char_ord"
    "HOL-Library.List_Lexorder"
    "HOL-Library.Product_Lexorder"
begin

section \<open>The release script of bscotch/ts-json-schema-generator\<close>

text \<open>
  The script \<^verbatim>\<open>bscotch-release.mjs\<close> computes the next fork release: it reads the
  base version from \<^verbatim>\<open>package.json\<close>, lists the git tags matching
  \<^verbatim>\<open>v*-bscotch.*\<close>, takes the greatest of them under \<^verbatim>\<open>semver.compare\<close>, replaces
  it by \<^verbatim>\<open>v<base>-bscotch.0\<close> when it is missing or does not start with
  \<^verbatim>\<open>v<base>-\<close>, and increments the prerelease with \<^verbatim>\<open>semver.inc\<close> (lines 25 to 33).

  Strings are \<^typ>\<open>string\<close> (ASCII). The numbers of a version are natural numbers
  here, and the length limit of the \<^verbatim>\<open>semver\<close> package is left out: the model agrees
  with the package on version strings of at most 256 characters whose numbers are below
  \<^verbatim>\<open>Number.MAX_SAFE_INTEGER\<close>.
\<close>

subsection \<open>Strings\<close>

text \<open>The character classes \<^verbatim>\<open>[0-9]\<close> and \<^verbatim>\<open>[a-zA-Z]\<close>.\<close>

definition is_digit :: "char \<Rightarrow> bool" where
  "is_digit c = (c \<in> set ''0123456789'')"

definition is_letter :: "char \<Rightarrow> bool" where
  "is_letter c = (c \<in> set ''abcdefghijklmnopqrstuvwxyzABCDEFGHIJKLMNOPQRSTUVWXYZ'')"

text \<open>The character class \<^verbatim>\<open>[a-zA-Z0-9-]\<close> of the identifiers of a version.\<close>

definition is_idchar :: "char \<Rightarrow> bool" where
  "is_idchar c = (is_digit c \<or> is_letter c \<or> c = CHR ''-'')"

text \<open>White space removed by \<^verbatim>\<open>String.prototype.trim\<close>: tab, line feed, vertical tab,
  form feed, carriage return and space.\<close>

definition is_space :: "char \<Rightarrow> bool" where
  "is_space c = (c \<in> set [CHR 0x09, CHR 0x0A, CHR 0x0B, CHR 0x0C, CHR 0x0D, CHR '' ''])"

definition trim :: "string \<Rightarrow> string" where
  "trim s = rev (dropWhile is_space (rev (dropWhile is_space s)))"

text \<open>\<^verbatim>\<open>s.split(c)\<close> for a one-character separator: never the empty list.\<close>

fun split_on :: "char \<Rightarrow> string \<Rightarrow> string list" where
  "split_on c [] = [[]]"
| "split_on c (x # xs) =
     (if x = c then [] # split_on c xs
      else (case split_on c xs of [] \<Rightarrow> [[x]] | w # ws \<Rightarrow> (x # w) # ws))"

text \<open>\<^verbatim>\<open>xs.join(c)\<close>.\<close>

fun join :: "char \<Rightarrow> string list \<Rightarrow> string" where
  "join c [] = []"
| "join c [w] = w"
| "join c (w # ws) = w @ c # join c ws"

text \<open>\<^verbatim>\<open>s.startsWith(p)\<close>.\<close>

definition startsWith :: "string \<Rightarrow> string \<Rightarrow> bool" where
  "startsWith s p = prefix p s"

text \<open>Decimal numerals: \<^verbatim>\<open>+s\<close> on a string of digits, and the string of a number.\<close>

definition digit_val :: "char \<Rightarrow> nat" where
  "digit_val c = of_char c - 48"

definition nat_of_digits :: "string \<Rightarrow> nat" where
  "nat_of_digits s = foldl (\<lambda>a c. 10 * a + digit_val c) 0 s"

definition digit_char :: "nat \<Rightarrow> char" where
  "digit_char d = ''0123456789'' ! d"

function show_nat :: "nat \<Rightarrow> string" where
  "show_nat n = (if n < 10 then [digit_char n] else show_nat (n div 10) @ [digit_char (n mod 10)])"
  by pat_completeness auto
termination
  by (relation "measure id") auto

declare show_nat.simps [simp del]

subsection \<open>The semver package: versions, parsing, ordering, increment\<close>

text \<open>
  Modelled from the spec: the npm package \<^verbatim>\<open>semver\<close>, imported on line 14 of the script,
  is not part of the repository. The spec describes a version as major, minor and patch
  integers, a sequence of prerelease identifiers and build metadata, ordered by the
  standard precedence rules. The definitions below follow the package's \<^verbatim>\<open>SemVer\<close>
  class in strict mode (its grammar, \<^verbatim>\<open>compare\<close>, \<^verbatim>\<open>compareIdentifiers\<close>,
  \<^verbatim>\<open>inc\<close> and \<^verbatim>\<open>format\<close>), which is what the script calls.
\<close>

datatype ident = NumId nat | StrId string

record SemVer =
  major :: nat
  minor :: nat
  patch :: nat
  prerelease :: "ident list"
  build :: "string list"

datatype error = TypeError

text \<open>\<^verbatim>\<open>0|[1-9]\d*\<close>\<close>

definition is_numeric_id :: "string \<Rightarrow> bool" where
  "is_numeric_id s = (s \<noteq> [] \<and> list_all is_digit s \<and> (s = ''0'' \<or> hd s \<noteq> CHR ''0''))"

text \<open>\<^verbatim>\<open>0|[1-9]\d*|\d*[a-zA-Z-][a-zA-Z0-9-]*\<close>\<close>

definition is_prerelease_id :: "string \<Rightarrow> bool" where
  "is_prerelease_id s = (is_numeric_id s \<or> (list_all is_idchar s \<and> \<not> list_all is_digit s))"

text \<open>\<^verbatim>\<open>[0-9A-Za-z-]+\<close>\<close>

definition is_build_id :: "string \<Rightarrow> bool" where
  "is_build_id s = (s \<noteq> [] \<and> list_all is_idchar s)"

text \<open>A prerelease identifier made of digits becomes a number, any other stays a string.\<close>

definition ident_of :: "string \<Rightarrow> ident" where
  "ident_of s = (if s \<noteq> [] \<and> list_all is_digit s then NumId (nat_of_digits s) else StrId s)"

text \<open>
  The constructor \<^verbatim>\<open>new SemVer(version)\<close>: the trimmed string must match
  \<^verbatim>\<open>^v?MAIN(-PRERELEASE)?(\+BUILD)?$\<close>; \<open>None\<close> is the \<^verbatim>\<open>TypeError\<close> it throws.
  No identifier holds \<^verbatim>\<open>+\<close>, and the main part holds no \<^verbatim>\<open>-\<close>, so the build starts
  at the first \<^verbatim>\<open>+\<close> and the prerelease at the first \<^verbatim>\<open>-\<close> before it.
\<close>

definition strip_v :: "string \<Rightarrow> string" where
  "strip_v s = (case s of [] \<Rightarrow> [] | c # r \<Rightarrow> if c = CHR ''v'' then r else s)"

definition parse_plain :: "string \<Rightarrow> SemVer option" where
  "parse_plain s =
     (let mp = takeWhile (\<lambda>c. c \<noteq> CHR ''+'') s;
          bd = dropWhile (\<lambda>c. c \<noteq> CHR ''+'') s;
          mn = takeWhile (\<lambda>c. c \<noteq> CHR ''-'') mp;
          pr = dropWhile (\<lambda>c. c \<noteq> CHR ''-'') mp;
          pre = (if pr = [] then [] else split_on CHR ''.'' (tl pr));
          bld = (if bd = [] then [] else split_on CHR ''.'' (tl bd))
      in case split_on CHR ''.'' mn of
           [a, b, c] \<Rightarrow>
             if is_numeric_id a \<and> is_numeric_id b \<and> is_numeric_id c
                \<and> list_all is_prerelease_id pre \<and> list_all is_build_id bld
             then Some \<lparr>major = nat_of_digits a, minor = nat_of_digits b,
                        patch = nat_of_digits c, prerelease = map ident_of pre, build = bld\<rparr>
             else None
         | _ \<Rightarrow> None)"

definition parse :: "string \<Rightarrow> SemVer option" where
  "parse raw = parse_plain (strip_v (trim raw))"

text \<open>\<^verbatim>\<open>compareIdentifiers\<close>: numbers by value and below every string, strings by code
  unit.\<close>

fun compareIdentifiers :: "ident \<Rightarrow> ident \<Rightarrow> int" where
  "compareIdentifiers (NumId a) (NumId b) = (if a = b then 0 else if a < b then - 1 else 1)"
| "compareIdentifiers (NumId a) (StrId b) = - 1"
| "compareIdentifiers (StrId a) (NumId b) = 1"
| "compareIdentifiers (StrId a) (StrId b) = (if a = b then 0 else if a < b then - 1 else 1)"

definition compareMain :: "SemVer \<Rightarrow> SemVer \<Rightarrow> int" where
  "compareMain v w =
     (let c1 = compareIdentifiers (NumId (major v)) (NumId (major w));
          c2 = compareIdentifiers (NumId (minor v)) (NumId (minor w));
          c3 = compareIdentifiers (NumId (patch v)) (NumId (patch w))
      in if c1 \<noteq> 0 then c1 else if c2 \<noteq> 0 then c2 else c3)"

text \<open>The \<^verbatim>\<open>do ... while (++i)\<close> loop of \<^verbatim>\<open>comparePre\<close>.\<close>

fun comparePre_loop :: "ident list \<Rightarrow> ident list \<Rightarrow> int" where
  "comparePre_loop [] [] = 0"
| "comparePre_loop (a # as) [] = 1"
| "comparePre_loop [] (b # bs) = - 1"
| "comparePre_loop (a # as) (b # bs) =
     (if a = b then comparePre_loop as bs else compareIdentifiers a b)"

definition comparePre :: "SemVer \<Rightarrow> SemVer \<Rightarrow> int" where
  "comparePre v w =
     (if prerelease v \<noteq> [] \<and> prerelease w = [] then - 1
      else if prerelease v = [] \<and> prerelease w \<noteq> [] then 1
      else if prerelease v = [] \<and> prerelease w = [] then 0
      else comparePre_loop (prerelease v) (prerelease w))"

text \<open>The method \<^verbatim>\<open>SemVer.compare\<close>: \<^verbatim>\<open>compareMain(other) || comparePre(other)\<close>. Its
  shortcut for two equal version texts returns the same \<open>0\<close>.\<close>

definition compare :: "SemVer \<Rightarrow> SemVer \<Rightarrow> int" where
  "compare v w = (let c = compareMain v w in if c \<noteq> 0 then c else comparePre v w)"

text \<open>The function \<^verbatim>\<open>semver.compare(a, b)\<close> builds both versions first and throws on a
  string that is not a version.\<close>

definition semver_compare :: "string \<Rightarrow> string \<Rightarrow> error + int" where
  "semver_compare a b =
     (case parse a of
        None \<Rightarrow> Inl TypeError
      | Some v \<Rightarrow> (case parse b of None \<Rightarrow> Inl TypeError | Some w \<Rightarrow> Inr (compare v w)))"

text \<open>\<^verbatim>\<open>SemVer.format\<close>: the field \<^verbatim>\<open>version\<close>, without build metadata.\<close>

fun show_ident :: "ident \<Rightarrow> string" where
  "show_ident (NumId n) = show_nat n"
| "show_ident (StrId s) = s"

definition format :: "SemVer \<Rightarrow> string" where
  "format v =
     show_nat (major v) @ ''.'' @ show_nat (minor v) @ ''.'' @ show_nat (patch v)
     @ (if prerelease v = [] then [] else CHR ''-'' # join CHR ''.'' (map show_ident (prerelease v)))"

text \<open>
  \<^verbatim>\<open>isNaN(x)\<close> on an element of the prerelease array: \<open>None\<close> is \<^verbatim>\<open>undefined\<close>. A string
  is converted by \<^verbatim>\<open>Number\<close>; over the identifier alphabet the strings that denote a
  number are an optional \<^verbatim>\<open>-\<close> followed by \<^verbatim>\<open>Infinity\<close> or by digits with an optional
  exponent, and the binary, octal and hexadecimal literals.
\<close>

definition strip_minus :: "string \<Rightarrow> string" where
  "strip_minus s = (case s of [] \<Rightarrow> [] | c # r \<Rightarrow> if c = CHR ''-'' then r else s)"

definition is_decimal_literal :: "string \<Rightarrow> bool" where
  "is_decimal_literal s =
     (let u = strip_minus s;
          m = takeWhile is_digit u;
          r = dropWhile is_digit u
      in u = ''Infinity''
         \<or> (m \<noteq> []
            \<and> (r = []
               \<or> ((hd r = CHR ''e'' \<or> hd r = CHR ''E'')
                  \<and> strip_minus (tl r) \<noteq> [] \<and> list_all is_digit (strip_minus (tl r))))))"

definition is_radix_literal :: "string \<Rightarrow> bool" where
  "is_radix_literal s =
     (case s of
        z # x # ds \<Rightarrow>
          z = CHR ''0'' \<and> ds \<noteq> []
          \<and> ((x \<in> set ''bB'' \<and> list_all (\<lambda>c. c \<in> set ''01'') ds)
             \<or> (x \<in> set ''oO'' \<and> list_all (\<lambda>c. c \<in> set ''01234567'') ds)
             \<or> (x \<in> set ''xX'' \<and> list_all (\<lambda>c. c \<in> set ''0123456789abcdefABCDEF'') ds))
      | _ \<Rightarrow> False)"

fun isNaN :: "ident option \<Rightarrow> bool" where
  "isNaN None = True"
| "isNaN (Some (NumId n)) = False"
| "isNaN (Some (StrId s)) = (\<not> (is_decimal_literal s \<or> is_radix_literal s))"

text \<open>\<^verbatim>\<open>inc('patch')\<close>: a release version gets the next patch number, a prerelease
  version loses its prerelease.\<close>

definition inc_patch :: "SemVer \<Rightarrow> SemVer" where
  "inc_patch v =
     (if prerelease v = [] then v\<lparr>patch := patch v + 1\<rparr> else v)\<lparr>prerelease := []\<rparr>"

text \<open>The \<^verbatim>\<open>while (--i >= 0)\<close> loop of \<^verbatim>\<open>inc('pre')\<close>: the rightmost number of the
  prerelease is increased by one; \<open>None\<close> when there is no number.\<close>

fun inc_last_number :: "ident list \<Rightarrow> ident list option" where
  "inc_last_number [] = None"
| "inc_last_number (x # xs) =
     (case inc_last_number xs of
        Some ys \<Rightarrow> Some (x # ys)
      | None \<Rightarrow> (case x of NumId n \<Rightarrow> Some (NumId (n + 1) # xs) | StrId s \<Rightarrow> None))"

definition nth_opt :: "'a list \<Rightarrow> nat \<Rightarrow> 'a option" where
  "nth_opt xs i = (if i < length xs then Some (xs ! i) else None)"

text \<open>\<^verbatim>\<open>inc('pre', identifier)\<close> with a non-empty identifier and no identifier base.\<close>

definition inc_pre :: "SemVer \<Rightarrow> string \<Rightarrow> SemVer" where
  "inc_pre v identifier =
     (let p1 = (if prerelease v = [] then [NumId 0]
                else (case inc_last_number (prerelease v) of
                        Some ys \<Rightarrow> ys
                      | None \<Rightarrow> prerelease v @ [NumId 0]));
          p2 = (if nth_opt p1 0 = Some (StrId identifier)
                then (if isNaN (nth_opt p1 1) then [StrId identifier, NumId 0] else p1)
                else [StrId identifier, NumId 0])
      in v\<lparr>prerelease := p2\<rparr>)"

text \<open>\<^verbatim>\<open>inc('prerelease', identifier)\<close>: on a version without prerelease it first acts
  as \<^verbatim>\<open>patch\<close>.\<close>

definition inc_prerelease :: "SemVer \<Rightarrow> string \<Rightarrow> SemVer" where
  "inc_prerelease v identifier =
     inc_pre (if prerelease v = [] then inc_patch v else v) identifier"

text \<open>The function \<^verbatim>\<open>semver.inc(version, 'prerelease', identifier)\<close> catches the
  constructor's error and returns \<^verbatim>\<open>null\<close>, here \<open>None\<close>.\<close>

definition semver_inc :: "string \<Rightarrow> string \<Rightarrow> string option" where
  "semver_inc version identifier =
     (case parse version of
        None \<Rightarrow> None
      | Some v \<Rightarrow> Some (format (inc_prerelease v identifier)))"

subsection \<open>The script\<close>

text \<open>
  \<^verbatim>\<open>git tag --list <pattern>\<close> prints the tags of the repository that match the pattern
  as a whole, one on a line. The patterns of the script hold literal characters and
  \<^verbatim>\<open>*\<close>, which matches any run of characters.
\<close>

fun wildmatch :: "string \<Rightarrow> string \<Rightarrow> bool" where
  "wildmatch [] s = (s = [])"
| "wildmatch (p # ps) [] = (p = CHR ''*'' \<and> wildmatch ps [])"
| "wildmatch (p # ps) (c # cs) =
     (if p = CHR ''*'' then wildmatch ps (c # cs) \<or> wildmatch (p # ps) cs
      else p = c \<and> wildmatch ps cs)"

text \<open>
  \<^verbatim>\<open>getMatchingTags\<close> (lines 64 to 66) splits the trimmed output of git at the line
  breaks. A tag name holds no white space, so the lines are the matching tags; with no
  matching tag the output is empty and \<^verbatim>\<open>"".split("\n")\<close> is the list of the empty
  string. The argument \<open>tags\<close> is the list of all tags of the repository in the order
  git prints them.
\<close>

definition getMatchingTags :: "string list \<Rightarrow> string \<Rightarrow> string list" where
  "getMatchingTags tags pattern =
     (let out = filter (wildmatch pattern) tags in if out = [] then [[]] else out)"

text \<open>
  \<^verbatim>\<open>versions.sort(semver.compare)\<close>: a stable sort that calls the comparison on pairs
  of elements and passes on what it throws. An array of fewer than two elements is
  returned without a call.
\<close>

fun sort_insert :: "string \<Rightarrow> string list \<Rightarrow> error + string list" where
  "sort_insert x [] = Inr [x]"
| "sort_insert x (y # ys) =
     (case semver_compare x y of
        Inl e \<Rightarrow> Inl e
      | Inr c \<Rightarrow>
          if c \<le> 0 then Inr (x # y # ys)
          else (case sort_insert x ys of Inl e \<Rightarrow> Inl e | Inr zs \<Rightarrow> Inr (y # zs)))"

fun sort_versions :: "string list \<Rightarrow> error + string list" where
  "sort_versions [] = Inr []"
| "sort_versions (x # xs) =
     (case sort_versions xs of Inl e \<Rightarrow> Inl e | Inr ys \<Rightarrow> sort_insert x ys)"

text \<open>\<^verbatim>\<open>maxVersion\<close> (lines 73 to 75): the last element of the sorted array,
  \<^verbatim>\<open>undefined\<close> (\<open>None\<close>) for an empty one.\<close>

definition maxVersion :: "string list \<Rightarrow> error + string option" where
  "maxVersion versions =
     (case sort_versions versions of
        Inl e \<Rightarrow> Inl e
      | Inr sorted_versions \<Rightarrow>
          Inr (if sorted_versions = [] then None else Some (last sorted_versions)))"

text \<open>\<^verbatim>\<open>getMaxMatchingTag\<close> (lines 82 to 84).\<close>

definition getMaxMatchingTag :: "string list \<Rightarrow> string \<Rightarrow> error + string option" where
  "getMaxMatchingTag tags pattern = maxVersion (getMatchingTags tags pattern)"

text \<open>Lines 26 to 29: the value of \<^verbatim>\<open>latestTag\<close> after the \<^verbatim>\<open>if\<close>, the tag that is
  incremented. An undefined or empty \<^verbatim>\<open>latestTag\<close> is falsy.\<close>

definition latestTag :: "string \<Rightarrow> string list \<Rightarrow> error + string" where
  "latestTag baseVersion tags =
     (case getMaxMatchingTag tags ''v*-bscotch.*'' of
        Inl e \<Rightarrow> Inl e
      | Inr m \<Rightarrow>
          Inr (case m of
                 None \<Rightarrow> ''v'' @ baseVersion @ ''-bscotch.0''
               | Some t \<Rightarrow>
                   if t = [] \<or> \<not> startsWith t (''v'' @ baseVersion @ ''-'')
                   then ''v'' @ baseVersion @ ''-bscotch.0''
                   else t))"

text \<open>A template literal prints \<^verbatim>\<open>null\<close> as the word.\<close>

definition template_string :: "string option \<Rightarrow> string" where
  "template_string x = (case x of None \<Rightarrow> ''null'' | Some s \<Rightarrow> s)"

text \<open>Lines 25 to 33: the pair of \<^verbatim>\<open>nextVersion\<close> and \<^verbatim>\<open>nextTag\<close>, or the error thrown
  by the sort.\<close>

definition resolveNext :: "string \<Rightarrow> string list \<Rightarrow> error + (string option \<times> string)" where
  "resolveNext baseVersion tags =
     (case latestTag baseVersion tags of
        Inl e \<Rightarrow> Inl e
      | Inr t \<Rightarrow>
          (let nextVersion = semver_inc t ''bscotch''
           in Inr (nextVersion, ''v'' @ template_string nextVersion)))"

subsection \<open>The notions of the specification\<close>

text \<open>A base version as the manifest declares it: \<^verbatim>\<open>major.minor.patch\<close> in decimal,
  a version without prerelease whose text is its own canonical form.\<close>

definition is_base :: "string \<Rightarrow> bool" where
  "is_base b =
     (case parse b of
        None \<Rightarrow> False
      | Some v \<Rightarrow> prerelease v = [] \<and> build v = [] \<and> format v = b)"

text \<open>The tags the script looks at: those that git lists for \<^verbatim>\<open>v*-bscotch.*\<close>.\<close>

definition marker_tags :: "string list \<Rightarrow> string list" where
  "marker_tags tags = filter (wildmatch ''v*-bscotch.*'') tags"

text \<open>The tag \<^verbatim>\<open>v<base>-bscotch.<n>\<close>.\<close>

definition release_tag :: "string \<Rightarrow> nat \<Rightarrow> string" where
  "release_tag b n = ''v'' @ b @ ''-bscotch.'' @ show_nat n"

text \<open>The active family of a base version: the tags, strings of the form
  \<^verbatim>\<open>v<version>\<close>, whose version has the major, minor and patch numbers of the base
  version and the marker as first prerelease identifier.\<close>

definition in_family :: "string \<Rightarrow> string \<Rightarrow> bool" where
  "in_family b t =
     (startsWith t ''v'' \<and>
      (case parse b of
         None \<Rightarrow> False
       | Some vb \<Rightarrow>
           (case parse t of
              None \<Rightarrow> False
            | Some vt \<Rightarrow>
                major vt = major vb \<and> minor vt = minor vb \<and> patch vt = patch vb
                \<and> nth_opt (prerelease vt) 0 = Some (StrId ''bscotch''))))"

text \<open>One tag sorts strictly above, or not below, another under \<^verbatim>\<open>semver.compare\<close>.\<close>

definition sorts_above :: "string \<Rightarrow> string \<Rightarrow> bool" where
  "sorts_above a t = (case semver_compare a t of Inl e \<Rightarrow> False | Inr c \<Rightarrow> 0 < c)"

definition sorts_not_below :: "string \<Rightarrow> string \<Rightarrow> bool" where
  "sorts_not_below a t = (case semver_compare a t of Inl e \<Rightarrow> False | Inr c \<Rightarrow> 0 \<le> c)"

text \<open>A greatest tag among those matching the marker pattern: it is one of them and none
  of them sorts above it. Every tag compared must then be a version.\<close>

definition greatest_marker_tag :: "string list \<Rightarrow> string \<Rightarrow> bool" where
  "greatest_marker_tag tags t =
     (t \<in> set (marker_tags tags) \<and> list_all (sorts_not_below t) (marker_tags tags))"

text \<open>The output form \<^verbatim>\<open>v<base>-bscotch.<N>\<close> with \<open>N\<close> a decimal numeral, and the
  tags of that form for some base version: the tags the script creates.\<close>

definition is_release_tag :: "string \<Rightarrow> string \<Rightarrow> bool" where
  "is_release_tag b t =
     (startsWith t (''v'' @ b @ ''-bscotch.'')
      \<and> is_numeric_id (drop (length (''v'' @ b @ ''-bscotch.'')) t))"

definition script_tag :: "string \<Rightarrow> bool" where
  "script_tag t =
     (let b = takeWhile (\<lambda>c. c \<noteq> CHR ''-'') (drop 1 t) in is_base b \<and> is_release_tag b t)"

text \<open>A tag with a counter: a version whose second prerelease identifier is a number.\<close>

definition has_counter :: "string \<Rightarrow> bool" where
  "has_counter t =
     (case parse t of
        None \<Rightarrow> False
      | Some v \<Rightarrow> (case nth_opt (prerelease v) 1 of Some (NumId n) \<Rightarrow> True | _ \<Rightarrow> False))"

subsection \<open>Notions for the proofs\<close>

text \<open>The precedence of a version as a key in a linear order: the three numbers, then
  whether the prerelease is absent, then the identifiers, a number before a string.\<close>

fun ident_key :: "ident \<Rightarrow> nat \<times> nat \<times> string" where
  "ident_key (NumId n) = (0, n, [])"
| "ident_key (StrId s) = (1, 0, s)"

definition version_key :: "SemVer \<Rightarrow> nat \<times> nat \<times> nat \<times> bool \<times> (nat \<times> nat \<times> string) list" where
  "version_key v =
     (major v, minor v, patch v, prerelease v = [], map ident_key (prerelease v))"

definition tag_key :: "string \<Rightarrow> nat \<times> nat \<times> nat \<times> bool \<times> (nat \<times> nat \<times> string) list" where
  "tag_key t = (case parse t of None \<Rightarrow> (0, 0, 0, False, []) | Some v \<Rightarrow> version_key v)"

text \<open>The identifiers that the constructor produces: a string identifier is made of
  identifier characters and is not a numeral.\<close>

fun wf_ident :: "ident \<Rightarrow> bool" where
  "wf_ident (NumId n) = True"
| "wf_ident (StrId s) = (list_all is_idchar s \<and> \<not> list_all is_digit s)"

text \<open>The main part of a formatted version.\<close>

definition format_main :: "SemVer \<Rightarrow> string" where
  "format_main v = show_nat (major v) @ ''.'' @ show_nat (minor v) @ ''.'' @ show_nat (patch v)"

text \<open>A text without \<^verbatim>\<open>+\<close> and white space.\<close>

definition clean :: "string \<Rightarrow> bool" where
  "clean p = list_all (\<lambda>c. c \<noteq> CHR ''+'' \<and> \<not> is_space c) p"

text \<open>Lines 27 to 33 as a function of the greatest matching tag \<open>m\<close>.\<close>

definition outcome :: "string \<Rightarrow> string \<Rightarrow> error + (string option \<times> string)" where
  "outcome b m =
     (let t = (if m = [] \<or> \<not> startsWith m (''v'' @ b @ ''-'') then ''v'' @ b @ ''-bscotch.0'' else m);
          nextVersion = semver_inc t ''bscotch''
      in Inr (nextVersion, ''v'' @ template_string nextVersion))"

section \<open>Decimal numerals and splitting\<close>

lemma digit_char_val: "is_digit c \<Longrightarrow> digit_char (digit_val c) = c"
  by (auto simp: is_digit_def digit_char_def digit_val_def)

lemma digit_val_lt: "is_digit c \<Longrightarrow> digit_val c < 10"
  by (auto simp: is_digit_def digit_val_def)

lemma digit_char_cases: "d < 10 \<Longrightarrow> d \<in> {0,1,2,3,4,5,6,7,8,9::nat}"
  by auto

lemma is_digit_digit_char: "d < 10 \<Longrightarrow> is_digit (digit_char d)"
  using digit_char_cases [of d] by (auto simp: is_digit_def digit_char_def)

lemma digit_val_char: "d < 10 \<Longrightarrow> digit_val (digit_char d) = d"
  using digit_char_cases [of d] by (auto simp: digit_val_def digit_char_def)

lemma digit_char_zero: "d < 10 \<Longrightarrow> digit_char d = CHR ''0'' \<longleftrightarrow> d = 0"
  using digit_char_cases [of d] by (auto simp: digit_char_def)

lemma nat_of_digits_snoc: "nat_of_digits (s @ [c]) = 10 * nat_of_digits s + digit_val c"
  by (simp add: nat_of_digits_def)

lemma show_nat_digits: "list_all is_digit (show_nat n)"
  by (induction n rule: show_nat.induct) (subst show_nat.simps, simp add: is_digit_digit_char)

lemma show_nat_nonempty: "show_nat n \<noteq> []"
  by (subst show_nat.simps) simp

lemma hd_show_nat: "0 < n \<Longrightarrow> hd (show_nat n) \<noteq> CHR ''0''"
proof (induction n rule: show_nat.induct)
  case (1 n)
  show ?case
  proof (cases "n < 10")
    case True
    with "1.prems" show ?thesis
      by (subst show_nat.simps) (simp add: digit_char_zero)
  next
    case False
    then have "0 < n div 10" by simp
    with "1.IH" False have "hd (show_nat (n div 10)) \<noteq> CHR ''0''" by simp
    with False show ?thesis
      by (subst show_nat.simps) (simp add: show_nat_nonempty)
  qed
qed

lemma show_nat_zero: "show_nat 0 = ''0''"
  by (subst show_nat.simps) (simp add: digit_char_def)

lemma is_numeric_id_show_nat: "is_numeric_id (show_nat n)"
  by (cases "n = 0") (simp_all add: is_numeric_id_def show_nat_zero is_digit_def show_nat_digits show_nat_nonempty hd_show_nat)

lemma nat_of_digits_show_nat: "nat_of_digits (show_nat n) = n"
proof (induction n rule: show_nat.induct)
  case (1 n)
  show ?case
  proof (cases "n < 10")
    case True
    then show ?thesis
      by (subst show_nat.simps) (simp add: nat_of_digits_def digit_val_char)
  next
    case False
    with "1.IH" have "nat_of_digits (show_nat (n div 10)) = n div 10" by simp
    with False show ?thesis
      by (subst show_nat.simps) (simp add: nat_of_digits_snoc digit_val_char)
  qed
qed

lemma show_nat_of_digits: "is_numeric_id s \<Longrightarrow> show_nat (nat_of_digits s) = s"
proof (induction s rule: rev_induct)
  case Nil
  then show ?case by (simp add: is_numeric_id_def)
next
  case (snoc c s)
  from snoc.prems have dc: "is_digit c" and ds: "list_all is_digit s"
    by (simp_all add: is_numeric_id_def)
  show ?case
  proof (cases "s = []")
    case True
    with dc show ?thesis
      by (subst show_nat.simps) (simp add: nat_of_digits_def digit_val_lt digit_char_val)
  next
    case False
    with snoc.prems have h: "hd s \<noteq> CHR ''0''"
      by (cases s) (auto simp: is_numeric_id_def)
    with False ds have ns: "is_numeric_id s" by (simp add: is_numeric_id_def)
    with snoc.IH have ih: "show_nat (nat_of_digits s) = s" by simp
    have "nat_of_digits s \<noteq> 0"
    proof
      assume "nat_of_digits s = 0"
      with ih have "s = ''0''" by (simp add: show_nat_zero)
      with h show False by simp
    qed
    then have big: "\<not> 10 * nat_of_digits s + digit_val c < 10" by simp
    have dv: "digit_val c < 10" using dc by (rule digit_val_lt)
    show ?thesis
      unfolding nat_of_digits_snoc
      by (subst show_nat.simps) (simp add: big ih dv digit_char_val dc)
  qed
qed

lemma split_on_nonempty: "split_on c s \<noteq> []"
  by (induction s) (auto split: list.splits)

lemma join_split_on: "join c (split_on c s) = s"
proof (induction s)
  case Nil
  then show ?case by simp
next
  case (Cons x xs)
  then show ?case
    using split_on_nonempty [of c xs]
    by (cases "split_on c xs"; cases "tl (split_on c xs)") (auto)
qed

lemma split_on_plain: "c \<notin> set w \<Longrightarrow> split_on c w = [w]"
  by (induction w) auto

lemma split_on_append: "c \<notin> set w \<Longrightarrow> split_on c (w @ c # s) = w # split_on c s"
  by (induction w) (auto)

lemma split_on_join: "ws \<noteq> [] \<Longrightarrow> \<forall>w\<in>set ws. c \<notin> set w \<Longrightarrow> split_on c (join c ws) = ws"
proof (induction c ws rule: join.induct)
  case (1 c)
  then show ?case by simp
next
  case (2 c w)
  then show ?case by (simp add: split_on_plain)
next
  case (3 c w v va)
  then show ?case by (simp add: split_on_append)
qed

section \<open>Parsing and formatting are inverse\<close>

lemma digit_not_sep: "is_digit c \<Longrightarrow> c \<noteq> CHR ''.'' \<and> c \<noteq> CHR ''-'' \<and> c \<noteq> CHR ''+'' \<and> \<not> is_space c"
  by (auto simp: is_digit_def is_space_def)

lemma idchar_not_sep: "is_idchar c \<Longrightarrow> c \<noteq> CHR ''.'' \<and> c \<noteq> CHR ''+'' \<and> \<not> is_space c"
  by (auto simp: is_idchar_def is_digit_def is_letter_def is_space_def)

lemma digit_idchar: "is_digit c \<Longrightarrow> is_idchar c"
  by (simp add: is_idchar_def)

lemma digits_idchars: "list_all is_digit s \<Longrightarrow> list_all is_idchar s"
  by (induction s) (auto simp: digit_idchar)

lemma wf_ident_of: "is_prerelease_id s \<Longrightarrow> wf_ident (ident_of s)"
  by (auto simp: ident_of_def is_prerelease_id_def is_numeric_id_def)

lemma show_ident_of: "is_prerelease_id s \<Longrightarrow> show_ident (ident_of s) = s"
  by (auto simp: ident_of_def is_prerelease_id_def show_nat_of_digits)

lemma ident_of_show: "wf_ident i \<Longrightarrow> ident_of (show_ident i) = i"
  by (cases i) (auto simp: ident_of_def show_nat_digits show_nat_nonempty nat_of_digits_show_nat)

lemma prerelease_id_show: "wf_ident i \<Longrightarrow> is_prerelease_id (show_ident i)"
  by (cases i) (auto simp: is_prerelease_id_def is_numeric_id_show_nat)

lemma idchars_show: "wf_ident i \<Longrightarrow> list_all is_idchar (show_ident i)"
  by (cases i) (auto simp: show_nat_digits digits_idchars)

lemma map_show_ident_of: "list_all is_prerelease_id ws \<Longrightarrow> map (show_ident \<circ> ident_of) ws = ws"
  by (induction ws) (auto simp: show_ident_of)

lemma map_ident_of_show: "list_all wf_ident is \<Longrightarrow> map (ident_of \<circ> show_ident) is = is"
  by (induction "is") (auto simp: ident_of_show)

lemma case3_SomeD:
  "(case parts of [a, b, c] \<Rightarrow> G a b c | _ \<Rightarrow> None) = Some v
   \<Longrightarrow> \<exists>a b c. parts = [a, b, c] \<and> G a b c = Some v"
  by (auto split: list.splits)

lemma wf_map_ident_of: "list_all is_prerelease_id ws \<Longrightarrow> list_all wf_ident (map ident_of ws)"
  by (induction ws) (auto simp: wf_ident_of)

lemma takeWhile_stop: "\<forall>x\<in>set xs. P x \<Longrightarrow> \<not> P y \<Longrightarrow> takeWhile P (xs @ y # ys) = xs"
  by (induction xs) auto

lemma dropWhile_stop: "\<forall>x\<in>set xs. P x \<Longrightarrow> \<not> P y \<Longrightarrow> dropWhile P (xs @ y # ys) = y # ys"
  by (induction xs) auto

lemma takeWhile_all: "\<forall>x\<in>set xs. P x \<Longrightarrow> takeWhile P xs = xs"
  by (induction xs) auto

lemma dropWhile_all: "\<forall>x\<in>set xs. P x \<Longrightarrow> dropWhile P xs = []"
  by (induction xs) auto

lemma format_split: "format v = format_main v @ (if prerelease v = [] then [] else CHR ''-'' # join CHR ''.'' (map show_ident (prerelease v)))"
  by (simp add: format_def format_main_def)

lemma format_main_chars: "c \<in> set (format_main v) \<Longrightarrow> is_digit c \<or> c = CHR ''.''"
  using show_nat_digits [of "major v"] show_nat_digits [of "minor v"] show_nat_digits [of "patch v"]
  by (auto simp: format_main_def list_all_iff)

lemma join_chars: "x \<in> set (join c ws) \<Longrightarrow> x = c \<or> (\<exists>w\<in>set ws. x \<in> set w)"
  by (induction c ws rule: join.induct) auto

lemma format_chars:
  assumes "list_all wf_ident (prerelease v)" and "c \<in> set (format v)"
  shows "is_idchar c \<or> c = CHR ''.''"
proof -
  have "is_idchar x" if "i \<in> set (prerelease v)" "x \<in> set (show_ident i)" for i x
    using that assms(1) idchars_show [of i] by (auto simp: list_all_iff)
  then have "is_idchar x \<or> x = CHR ''.''" if "x \<in> set (join CHR ''.'' (map show_ident (prerelease v)))" for x
    using join_chars [OF that] by auto
  with assms(2) show ?thesis
    using format_main_chars [of c v]
    by (auto simp: format_split digit_idchar is_idchar_def split: if_splits)
qed

lemma split_main: "split_on CHR ''.'' (format_main v) = [show_nat (major v), show_nat (minor v), show_nat (patch v)]"
proof -
  have nd: "CHR ''.'' \<notin> set (show_nat n)" for n
    using show_nat_digits [of n] digit_not_sep by (auto simp: list_all_iff)
  show ?thesis
    by (simp add: format_main_def split_on_append nd split_on_plain)
qed

lemma parse_plain_format:
  assumes wf: "list_all wf_ident (prerelease v)"
  shows "parse_plain (format v) = Some (v\<lparr>build := []\<rparr>)"
proof -
  let ?P = "map show_ident (prerelease v)"
  have noplus: "\<forall>c\<in>set (format v). c \<noteq> CHR ''+''"
    using format_chars [OF wf] idchar_not_sep by auto
  have mp: "takeWhile (\<lambda>c. c \<noteq> CHR ''+'') (format v) = format v"
    and bd: "dropWhile (\<lambda>c. c \<noteq> CHR ''+'') (format v) = []"
    using noplus by (simp_all add: takeWhile_all dropWhile_all)
  have nodash: "\<forall>c\<in>set (format_main v). c \<noteq> CHR ''-''"
    using format_main_chars digit_not_sep by auto
  have mn: "takeWhile (\<lambda>c. c \<noteq> CHR ''-'') (format v) = format_main v"
    using nodash by (simp add: format_split takeWhile_all takeWhile_stop)
  have pr: "dropWhile (\<lambda>c. c \<noteq> CHR ''-'') (format v)
      = (if prerelease v = [] then [] else CHR ''-'' # join CHR ''.'' ?P)"
    using nodash by (simp add: format_split dropWhile_all dropWhile_stop)
  have nodot: "\<forall>w\<in>set ?P. CHR ''.'' \<notin> set w"
  proof
    fix w assume "w \<in> set ?P"
    then obtain i where "i \<in> set (prerelease v)" "w = show_ident i" by auto
    with wf have "list_all is_idchar w" by (auto simp: list_all_iff dest!: idchars_show)
    then show "CHR ''.'' \<notin> set w" using idchar_not_sep by (auto simp: list_all_iff)
  qed
  have sp: "prerelease v \<noteq> [] \<Longrightarrow> split_on CHR ''.'' (join CHR ''.'' ?P) = ?P"
    using nodot by (simp add: split_on_join)
  have ids: "list_all is_prerelease_id ?P"
    using wf by (auto simp: list_all_iff prerelease_id_show)
  have eq: "\<lparr>major = major v, minor = minor v, patch = patch v,
      prerelease = prerelease v, build = []\<rparr> = v\<lparr>build := []\<rparr>"
    by (cases v) simp
  show ?thesis
  proof (cases "prerelease v = []")
    case True
    then show ?thesis
      unfolding parse_plain_def Let_def mp bd mn pr split_main
      using eq by (simp add: is_numeric_id_show_nat nat_of_digits_show_nat)
  next
    case False
    then show ?thesis
      unfolding parse_plain_def Let_def mp bd mn pr split_main
      using sp ids wf eq
      by (simp add: is_numeric_id_show_nat nat_of_digits_show_nat map_ident_of_show)
  qed
qed

lemma parse_plain_inv:
  assumes "parse_plain s = Some v"
  shows "\<exists>rest. s = format v @ rest \<and> (rest = [] \<or> hd rest = CHR ''+'')"
    and "list_all wf_ident (prerelease v)"
proof -
  define mp where "mp = takeWhile (\<lambda>c. c \<noteq> CHR ''+'') s"
  define bd where "bd = dropWhile (\<lambda>c. c \<noteq> CHR ''+'') s"
  define mn where "mn = takeWhile (\<lambda>c. c \<noteq> CHR ''-'') mp"
  define pr where "pr = dropWhile (\<lambda>c. c \<noteq> CHR ''-'') mp"
  define pre where "pre = (if pr = [] then [] else split_on CHR ''.'' (tl pr))"
  define bld where "bld = (if bd = [] then [] else split_on CHR ''.'' (tl bd))"
  have s: "s = mp @ bd" and m: "mp = mn @ pr"
    by (simp_all add: mp_def bd_def mn_def pr_def)
  from assms have "\<exists>a b c. split_on CHR ''.'' mn = [a, b, c] \<and>
      (if is_numeric_id a \<and> is_numeric_id b \<and> is_numeric_id c
          \<and> list_all is_prerelease_id pre \<and> list_all is_build_id bld
       then Some \<lparr>major = nat_of_digits a, minor = nat_of_digits b,
                  patch = nat_of_digits c, prerelease = map ident_of pre, build = bld\<rparr>
       else None) = Some v"
    unfolding parse_plain_def Let_def mp_def bd_def mn_def pr_def pre_def bld_def
    by (rule case3_SomeD)
  then obtain a b c where
    abc: "split_on CHR ''.'' mn = [a, b, c]"
    and cond: "is_numeric_id a \<and> is_numeric_id b \<and> is_numeric_id c
          \<and> list_all is_prerelease_id pre \<and> list_all is_build_id bld"
    and veq: "v = \<lparr>major = nat_of_digits a, minor = nat_of_digits b,
                  patch = nat_of_digits c, prerelease = map ident_of pre, build = bld\<rparr>"
    by (metis option.distinct(1) option.inject)
  from cond have num: "is_numeric_id a" "is_numeric_id b" "is_numeric_id c"
    and ids: "list_all is_prerelease_id pre" by blast+
  have v: "major v = nat_of_digits a" "minor v = nat_of_digits b" "patch v = nat_of_digits c"
       "prerelease v = map ident_of pre"
    by (simp_all only: veq SemVer.simps)
  have "mn = join CHR ''.'' (split_on CHR ''.'' mn)" by (simp add: join_split_on)
  with abc have mn: "mn = a @ ''.'' @ b @ ''.'' @ c" by simp
  have fm: "format_main v = mn"
    using num v mn by (simp add: format_main_def show_nat_of_digits)
  have prs: "(if prerelease v = [] then [] else CHR ''-'' # join CHR ''.'' (map show_ident (prerelease v))) = pr"
  proof (cases "pr = []")
    case True
    then have "pre = []" by (simp add: pre_def)
    with v True show ?thesis by simp
  next
    case False
    then have "\<not> (hd pr \<noteq> CHR ''-'')" unfolding pr_def by (rule hd_dropWhile)
    with False have p: "pr = CHR ''-'' # tl pr" by (cases pr) auto
    from False have pre: "pre = split_on CHR ''.'' (tl pr)" by (simp add: pre_def)
    then have ne: "prerelease v \<noteq> []" using v split_on_nonempty by simp
    have "map show_ident (prerelease v) = pre"
      using v ids by (simp add: map_show_ident_of)
    then have "join CHR ''.'' (map show_ident (prerelease v)) = tl pr"
      using pre by (simp add: join_split_on)
    with ne p show ?thesis by simp
  qed
  have "format v = mn @ pr" using fm prs by (simp add: format_split)
  then have "s = format v @ bd" using s m by simp
  moreover have "bd = [] \<or> hd bd = CHR ''+''"
    unfolding bd_def using hd_dropWhile [of "\<lambda>c. c \<noteq> CHR ''+''" s] by auto
  ultimately show "\<exists>rest. s = format v @ rest \<and> (rest = [] \<or> hd rest = CHR ''+'')" by blast
  show "list_all wf_ident (prerelease v)"
    using v ids by (simp add: wf_map_ident_of)
qed

lemma dropWhile_none: "\<forall>c\<in>set s. \<not> P c \<Longrightarrow> dropWhile P s = s"
  by (cases s) auto

lemma trim_clean: "\<forall>c\<in>set s. \<not> is_space c \<Longrightarrow> trim s = s"
  by (simp add: trim_def dropWhile_none)

lemma trim_decomp:
  assumes "\<not> is_space c"
  shows "\<exists>s1 ws. trim (c # t) = c # s1 \<and> c # t = c # s1 @ ws \<and> list_all is_space ws"
proof -
  define r where "r = rev (c # t)"
  define tk where "tk = takeWhile is_space r"
  define dr where "dr = dropWhile is_space r"
  have d: "dropWhile is_space (c # t) = c # t" using assms by simp
  have "r = tk @ dr" by (simp add: tk_def dr_def)
  then have "rev r = rev dr @ rev tk" by simp
  then have ct: "c # t = rev dr @ rev tk" by (simp add: r_def)
  have sp: "list_all is_space (rev tk)"
    unfolding tk_def list_all_iff using set_takeWhileD by fastforce
  have tr: "trim (c # t) = rev dr"
    unfolding trim_def d dr_def r_def ..
  have "dropWhile is_space (rev t @ [c]) = dropWhile is_space (rev t) @ [c]"
    using assms by (simp add: dropWhile_append)
  then have "rev dr = c # rev (dropWhile is_space (rev t))" by (simp add: dr_def r_def)
  with ct sp tr show ?thesis by (metis append_Cons)
qed

lemma v_not_space: "\<not> is_space CHR ''v''"
  by (simp add: is_space_def)

lemma parse_v_format:
  assumes "list_all wf_ident (prerelease v)"
  shows "parse (CHR ''v'' # format v) = Some (v\<lparr>build := []\<rparr>)"
proof -
  have "\<forall>c\<in>set (CHR ''v'' # format v). \<not> is_space c"
    using format_chars [OF assms] idchar_not_sep v_not_space
    by (auto simp: is_space_def)
  then have "trim (CHR ''v'' # format v) = CHR ''v'' # format v" by (rule trim_clean)
  then show ?thesis
    by (simp add: parse_def strip_v_def parse_plain_format [OF assms])
qed

lemma parse_v_inv:
  assumes "parse (CHR ''v'' # t) = Some v"
  shows "\<exists>rest. CHR ''v'' # t = CHR ''v'' # format v @ rest
           \<and> (rest = [] \<or> hd rest = CHR ''+'' \<or> is_space (hd rest))"
proof -
  from trim_decomp [OF v_not_space, of t] obtain s1 ws where
    tr: "trim (CHR ''v'' # t) = CHR ''v'' # s1" and t: "CHR ''v'' # t = CHR ''v'' # s1 @ ws"
    and ws: "list_all is_space ws" by blast
  from assms tr have "parse_plain s1 = Some v" by (simp add: parse_def strip_v_def)
  from parse_plain_inv(1) [OF this] obtain rest where
    s1: "s1 = format v @ rest" and rest: "rest = [] \<or> hd rest = CHR ''+''" by blast
  have "rest @ ws = [] \<or> hd (rest @ ws) = CHR ''+'' \<or> is_space (hd (rest @ ws))"
    using rest ws by (cases rest; cases ws) auto
  with t s1 have "CHR ''v'' # t = CHR ''v'' # format v @ (rest @ ws)
      \<and> (rest @ ws = [] \<or> hd (rest @ ws) = CHR ''+'' \<or> is_space (hd (rest @ ws)))" by simp
  then show ?thesis by blast
qed

lemma parse_wf: "parse t = Some v \<Longrightarrow> list_all wf_ident (prerelease v)"
  unfolding parse_def by (rule parse_plain_inv(2))

lemma parse_plain_format_build:
  assumes wf: "list_all wf_ident (prerelease v)"
    and bl: "list_all is_build_id (split_on CHR ''.'' z)"
  shows "parse_plain (format v @ CHR ''+'' # z) = Some (v\<lparr>build := split_on CHR ''.'' z\<rparr>)"
proof -
  let ?P = "map show_ident (prerelease v)"
  let ?s = "format v @ CHR ''+'' # z"
  have noplus: "\<forall>c\<in>set (format v). c \<noteq> CHR ''+''"
    using format_chars [OF wf] idchar_not_sep by auto
  have mp: "takeWhile (\<lambda>c. c \<noteq> CHR ''+'') ?s = format v"
    and bd: "dropWhile (\<lambda>c. c \<noteq> CHR ''+'') ?s = CHR ''+'' # z"
    using noplus by (simp_all add: takeWhile_stop dropWhile_stop)
  have nodash: "\<forall>c\<in>set (format_main v). c \<noteq> CHR ''-''"
    using format_main_chars digit_not_sep by auto
  have mn: "takeWhile (\<lambda>c. c \<noteq> CHR ''-'') (format v) = format_main v"
    using nodash by (simp add: format_split takeWhile_all takeWhile_stop)
  have pr: "dropWhile (\<lambda>c. c \<noteq> CHR ''-'') (format v)
      = (if prerelease v = [] then [] else CHR ''-'' # join CHR ''.'' ?P)"
    using nodash by (simp add: format_split dropWhile_all dropWhile_stop)
  have nodot: "\<forall>w\<in>set ?P. CHR ''.'' \<notin> set w"
  proof
    fix w assume "w \<in> set ?P"
    then obtain i where "i \<in> set (prerelease v)" "w = show_ident i" by auto
    with wf have "list_all is_idchar w" by (auto simp: list_all_iff dest!: idchars_show)
    then show "CHR ''.'' \<notin> set w" using idchar_not_sep by (auto simp: list_all_iff)
  qed
  have sp: "prerelease v \<noteq> [] \<Longrightarrow> split_on CHR ''.'' (join CHR ''.'' ?P) = ?P"
    using nodot by (simp add: split_on_join)
  have ids: "list_all is_prerelease_id ?P"
    using wf by (auto simp: list_all_iff prerelease_id_show)
  have eq: "\<lparr>major = major v, minor = minor v, patch = patch v,
      prerelease = prerelease v, build = split_on CHR ''.'' z\<rparr> = v\<lparr>build := split_on CHR ''.'' z\<rparr>"
    by (cases v) simp
  show ?thesis
  proof (cases "prerelease v = []")
    case True
    then show ?thesis
      unfolding parse_plain_def Let_def mp bd mn pr split_main
      using eq bl by (simp add: is_numeric_id_show_nat nat_of_digits_show_nat)
  next
    case False
    then show ?thesis
      unfolding parse_plain_def Let_def mp bd mn pr split_main
      using sp ids wf eq bl
      by (simp add: is_numeric_id_show_nat nat_of_digits_show_nat map_ident_of_show)
  qed
qed

lemma build_chars:
  assumes "list_all is_build_id (split_on CHR ''.'' z)" and "c \<in> set z"
  shows "is_idchar c \<or> c = CHR ''.''"
proof -
  have "z = join CHR ''.'' (split_on CHR ''.'' z)" by (simp add: join_split_on)
  with assms(2) have "c \<in> set (join CHR ''.'' (split_on CHR ''.'' z))" by simp
  from join_chars [OF this] assms(1) show ?thesis
    by (auto simp: list_all_iff is_build_id_def)
qed

lemma parse_v_format_build:
  assumes wf: "list_all wf_ident (prerelease v)"
    and bl: "list_all is_build_id (split_on CHR ''.'' z)"
  shows "parse (CHR ''v'' # format v @ CHR ''+'' # z) = Some (v\<lparr>build := split_on CHR ''.'' z\<rparr>)"
proof -
  have "\<forall>c\<in>set (CHR ''v'' # format v @ CHR ''+'' # z). \<not> is_space c"
    using format_chars [OF wf] build_chars [OF bl] idchar_not_sep v_not_space
    by (auto simp: is_space_def)
  then have "trim (CHR ''v'' # format v @ CHR ''+'' # z) = CHR ''v'' # format v @ CHR ''+'' # z"
    by (rule trim_clean)
  then show ?thesis
    by (simp add: parse_def strip_v_def parse_plain_format_build [OF assms])
qed

lemma parse_plain_build_valid:
  assumes "parse_plain s = Some v" and "dropWhile (\<lambda>c. c \<noteq> CHR ''+'') s = CHR ''+'' # z"
  shows "list_all is_build_id (split_on CHR ''.'' z)"
proof -
  define mp where "mp = takeWhile (\<lambda>c. c \<noteq> CHR ''+'') s"
  define bd where "bd = dropWhile (\<lambda>c. c \<noteq> CHR ''+'') s"
  define mn where "mn = takeWhile (\<lambda>c. c \<noteq> CHR ''-'') mp"
  define pr where "pr = dropWhile (\<lambda>c. c \<noteq> CHR ''-'') mp"
  define pre where "pre = (if pr = [] then [] else split_on CHR ''.'' (tl pr))"
  define bld where "bld = (if bd = [] then [] else split_on CHR ''.'' (tl bd))"
  from assms(1) have "\<exists>a b c. split_on CHR ''.'' mn = [a, b, c] \<and>
      (if is_numeric_id a \<and> is_numeric_id b \<and> is_numeric_id c
          \<and> list_all is_prerelease_id pre \<and> list_all is_build_id bld
       then Some \<lparr>major = nat_of_digits a, minor = nat_of_digits b,
                  patch = nat_of_digits c, prerelease = map ident_of pre, build = bld\<rparr>
       else None) = Some v"
    unfolding parse_plain_def Let_def mp_def bd_def mn_def pr_def pre_def bld_def
    by (rule case3_SomeD)
  then have "list_all is_build_id bld" by (metis option.distinct(1))
  moreover from assms(2) have "bld = split_on CHR ''.'' z" by (simp add: bld_def bd_def)
  ultimately show ?thesis by simp
qed

lemma parse_v_inv_build:
  assumes "parse (CHR ''v'' # t) = Some v"
  shows "\<exists>bd ws. CHR ''v'' # t = CHR ''v'' # format v @ bd @ ws \<and> list_all is_space ws
           \<and> (bd = [] \<or> (\<exists>z. bd = CHR ''+'' # z \<and> list_all is_build_id (split_on CHR ''.'' z)))"
proof -
  from trim_decomp [OF v_not_space, of t] obtain s1 ws where
    tr: "trim (CHR ''v'' # t) = CHR ''v'' # s1" and t: "CHR ''v'' # t = CHR ''v'' # s1 @ ws"
    and ws: "list_all is_space ws" by blast
  from assms tr have p: "parse_plain s1 = Some v" by (simp add: parse_def strip_v_def)
  from parse_plain_inv(1) [OF p] obtain rest where
    s1: "s1 = format v @ rest" and rest: "rest = [] \<or> hd rest = CHR ''+''" by blast
  have noplus: "\<forall>c\<in>set (format v). c \<noteq> CHR ''+''"
    using format_chars [OF parse_plain_inv(2) [OF p]] idchar_not_sep by auto
  have "rest = [] \<or> (\<exists>z. rest = CHR ''+'' # z \<and> list_all is_build_id (split_on CHR ''.'' z))"
  proof (cases rest)
    case Nil
    then show ?thesis by simp
  next
    case (Cons c z)
    with rest have r: "rest = CHR ''+'' # z" by simp
    with s1 noplus have "dropWhile (\<lambda>c. c \<noteq> CHR ''+'') s1 = CHR ''+'' # z"
      by (simp add: dropWhile_stop)
    from parse_plain_build_valid [OF p this] r show ?thesis by blast
  qed
  with t s1 ws show ?thesis by auto
qed

lemma split_on_Cons_other:
  "x \<noteq> c \<Longrightarrow> split_on c (x # xs) = (x # hd (split_on c xs)) # tl (split_on c xs)"
  using split_on_nonempty [of c xs] by (cases "split_on c xs") auto

lemma hd_split_on_empty: "hd (split_on c s) = [] \<longleftrightarrow> s = [] \<or> hd s = c"
  using split_on_nonempty [of c "tl s"]
  by (cases s; cases "split_on c (tl s)") auto

lemma build_id_split:
  "list_all is_build_id (split_on CHR ''.'' s) \<longleftrightarrow>
     s \<noteq> [] \<and> hd s \<noteq> CHR ''.'' \<and> list_all is_idchar (hd (split_on CHR ''.'' s))
     \<and> list_all is_build_id (tl (split_on CHR ''.'' s))"
  using split_on_nonempty [of "CHR ''.''" s] hd_split_on_empty [of "CHR ''.''" s]
  by (cases "split_on CHR ''.'' s") (auto simp: is_build_id_def)

lemma build_tail:
  assumes "list_all is_idchar (hd (split_on CHR ''.'' (x @ CHR ''-'' # y)))
           \<and> list_all is_build_id (tl (split_on CHR ''.'' (x @ CHR ''-'' # y)))"
  shows "list_all is_idchar (hd (split_on CHR ''.'' (x @ ''-bscotch.0'')))
           \<and> list_all is_build_id (tl (split_on CHR ''.'' (x @ ''-bscotch.0'')))"
  using assms
proof (induction x)
  case Nil
  show ?case by (simp add: is_build_id_def is_idchar_def is_letter_def is_digit_def)
next
  case (Cons c x)
  show ?case
  proof (cases "c = CHR ''.''")
    case True
    with Cons.prems have b: "list_all is_build_id (split_on CHR ''.'' (x @ CHR ''-'' # y))" by simp
    then have h: "hd (x @ CHR ''-'' # y) \<noteq> CHR ''.''" by (simp add: build_id_split)
    from b have "list_all is_idchar (hd (split_on CHR ''.'' (x @ CHR ''-'' # y)))
           \<and> list_all is_build_id (tl (split_on CHR ''.'' (x @ CHR ''-'' # y)))"
      by (simp add: build_id_split)
    from Cons.IH [OF this] have
      i: "list_all is_idchar (hd (split_on CHR ''.'' (x @ ''-bscotch.0'')))
           \<and> list_all is_build_id (tl (split_on CHR ''.'' (x @ ''-bscotch.0'')))" .
    from h have "hd (x @ ''-bscotch.0'') \<noteq> CHR ''.''" by (cases x) auto
    with i have "list_all is_build_id (split_on CHR ''.'' (x @ ''-bscotch.0''))"
      by (simp add: build_id_split [of "x @ ''-bscotch.0''"])
    with True show ?thesis by simp
  next
    case False
    with Cons.prems have "is_idchar c"
      and "list_all is_idchar (hd (split_on CHR ''.'' (x @ CHR ''-'' # y)))
           \<and> list_all is_build_id (tl (split_on CHR ''.'' (x @ CHR ''-'' # y)))"
      by (simp_all add: split_on_Cons_other del: split_on.simps)
    with Cons.IH False show ?thesis by (simp add: split_on_Cons_other del: split_on.simps)
  qed
qed

lemma build_replace:
  assumes "list_all is_build_id (split_on CHR ''.'' (x @ CHR ''-'' # y))"
  shows "list_all is_build_id (split_on CHR ''.'' (x @ ''-bscotch.0''))"
proof -
  from assms have h: "hd (x @ CHR ''-'' # y) \<noteq> CHR ''.''" by (simp add: build_id_split)
  from assms have "list_all is_idchar (hd (split_on CHR ''.'' (x @ CHR ''-'' # y)))
           \<and> list_all is_build_id (tl (split_on CHR ''.'' (x @ CHR ''-'' # y)))"
    by (simp add: build_id_split)
  from build_tail [OF this] have
    i: "list_all is_idchar (hd (split_on CHR ''.'' (x @ ''-bscotch.0'')))
           \<and> list_all is_build_id (tl (split_on CHR ''.'' (x @ ''-bscotch.0'')))" .
  from h have "hd (x @ ''-bscotch.0'') \<noteq> CHR ''.''" by (cases x) auto
  with i show ?thesis by (simp add: build_id_split [of "x @ ''-bscotch.0''"])
qed

lemma prefix_clean:
  assumes "clean p" and "r = [] \<or> hd r = CHR ''+'' \<or> is_space (hd r)"
  shows "prefix p (x @ r) \<longleftrightarrow> prefix p x"
proof
  assume "prefix p (x @ r)"
  then have "prefix p x \<or> (\<exists>us. p = x @ us \<and> prefix us r)"
    by (simp add: prefix_append)
  then show "prefix p x"
  proof
    assume "prefix p x"
    then show ?thesis .
  next
    assume "\<exists>us. p = x @ us \<and> prefix us r"
    then obtain us where us: "p = x @ us" "prefix us r" by blast
    show ?thesis
    proof (cases us)
      case Nil
      with us show ?thesis by simp
    next
      case (Cons u us')
      with us(2) obtain r' where "r = u # r'" by (cases r) auto
      with us(1) Cons assms show ?thesis by (auto simp: clean_def)
    qed
  qed
next
  assume "prefix p x"
  then show "prefix p (x @ r)" by (simp add: prefix_prefix)
qed

lemma startsWith_format:
  assumes "clean p" and "parse (CHR ''v'' # t) = Some v"
  shows "startsWith (CHR ''v'' # t) p \<longleftrightarrow> prefix p (CHR ''v'' # format v)"
proof -
  from parse_v_inv [OF assms(2)] obtain rest where
    "CHR ''v'' # t = (CHR ''v'' # format v) @ rest"
    "rest = [] \<or> hd rest = CHR ''+'' \<or> is_space (hd rest)" by auto
  then show ?thesis
    unfolding startsWith_def using prefix_clean [OF assms(1)] by metis
qed

lemma wildmatch_star: "wildmatch (CHR ''*'' # ps) s \<longleftrightarrow> (\<exists>a b. s = a @ b \<and> wildmatch ps b)"
proof (induction s)
  case Nil
  then show ?case by simp
next
  case (Cons c cs)
  show ?case
  proof
    assume "wildmatch (CHR ''*'' # ps) (c # cs)"
    then have "wildmatch ps (c # cs) \<or> wildmatch (CHR ''*'' # ps) cs" by simp
    then show "\<exists>a b. c # cs = a @ b \<and> wildmatch ps b"
    proof
      assume "wildmatch ps (c # cs)"
      then have "c # cs = [] @ c # cs \<and> wildmatch ps (c # cs)" by simp
      then show ?thesis by blast
    next
      assume "wildmatch (CHR ''*'' # ps) cs"
      with Cons.IH obtain a b where "cs = a @ b" "wildmatch ps b" by blast
      then have "c # cs = (c # a) @ b \<and> wildmatch ps b" by simp
      then show ?thesis by blast
    qed
  next
    assume "\<exists>a b. c # cs = a @ b \<and> wildmatch ps b"
    then obtain a b where ab: "c # cs = a @ b" "wildmatch ps b" by blast
    show "wildmatch (CHR ''*'' # ps) (c # cs)"
    proof (cases a)
      case Nil
      with ab have "wildmatch ps (c # cs)" by simp
      then show ?thesis by simp
    next
      case (Cons a1 a')
      with ab have "cs = a' @ b" by simp
      with ab(2) Cons.IH have "wildmatch (CHR ''*'' # ps) cs" by blast
      then show ?thesis by simp
    qed
  qed
qed

lemma wildmatch_lit:
  "p \<noteq> CHR ''*'' \<Longrightarrow> wildmatch (p # ps) s \<longleftrightarrow> (\<exists>s'. s = p # s' \<and> wildmatch ps s')"
  by (cases s) auto

lemma wildmatch_marker:
  "wildmatch ''v*-bscotch.*'' t \<longleftrightarrow> (\<exists>x y. t = CHR ''v'' # x @ ''-bscotch.'' @ y)"
proof
  assume m: "wildmatch ''v*-bscotch.*'' t"
  then obtain t' where t: "t = CHR ''v'' # t'" by (cases t) auto
  with m have "wildmatch ''*-bscotch.*'' t'" by simp
  then obtain a b where ab: "t' = a @ b" "wildmatch ''-bscotch.*'' b"
    unfolding wildmatch_star by blast
  from ab(2) obtain y where "b = ''-bscotch.'' @ y"
    by (auto simp: wildmatch_lit)
  with t ab show "\<exists>x y. t = CHR ''v'' # x @ ''-bscotch.'' @ y" by auto
next
  assume "\<exists>x y. t = CHR ''v'' # x @ ''-bscotch.'' @ y"
  then obtain x y where t: "t = CHR ''v'' # x @ ''-bscotch.'' @ y" by blast
  have "y = y @ [] \<and> wildmatch [] []" by simp
  then have "wildmatch ''*'' y" unfolding wildmatch_star by blast
  then have "wildmatch ''-bscotch.*'' (''-bscotch.'' @ y)" by simp
  then have "wildmatch ''*-bscotch.*'' (x @ ''-bscotch.'' @ y)"
    unfolding wildmatch_star by blast
  with t show "wildmatch ''v*-bscotch.*'' t" by simp
qed

section \<open>The order of versions\<close>

lemma ident_key_inj: "ident_key a = ident_key b \<Longrightarrow> a = b"
  by (cases a; cases b) auto

lemma map_ident_key_inj: "map ident_key as = map ident_key bs \<Longrightarrow> as = bs"
proof (induction as arbitrary: bs)
  case Nil
  then show ?case by simp
next
  case (Cons a as)
  then show ?case by (cases bs) (auto dest: ident_key_inj)
qed

lemma compareIdentifiers_key:
  "compareIdentifiers a b =
     (if ident_key a = ident_key b then 0 else if ident_key a < ident_key b then - 1 else 1)"
  by (cases a; cases b) auto

lemma comparePre_loop_key:
  "comparePre_loop as bs =
     (if map ident_key as = map ident_key bs then 0
      else if map ident_key as < map ident_key bs then - 1 else 1)"
proof (induction as bs rule: comparePre_loop.induct)
  case (4 a as b bs)
  show ?case
  proof (cases "a = b")
    case True
    with 4 show ?thesis by simp
  next
    case False
    then have "ident_key a \<noteq> ident_key b" using ident_key_inj by blast
    with False show ?thesis by (simp add: compareIdentifiers_key)
  qed
qed simp_all

lemma compareMain_key:
  "compareMain v w =
     (if (major v, minor v, patch v) = (major w, minor w, patch w) then 0
      else if (major v, minor v, patch v) < (major w, minor w, patch w) then - 1 else 1)"
  unfolding compareMain_def Let_def by auto

lemma comparePre_key:
  "comparePre v w =
     (if map ident_key (prerelease v) = map ident_key (prerelease w) then 0
      else if (prerelease v = [], map ident_key (prerelease v))
              < (prerelease w = [], map ident_key (prerelease w)) then - 1 else 1)"
  unfolding comparePre_def by (auto simp: comparePre_loop_key)

lemma less_quad:
  fixes a :: "'a::linorder" and b :: "'b::linorder" and c :: "'c::linorder" and d :: "'d::linorder"
  shows "(a, b, c, d) < (a', b', c', d') \<longleftrightarrow>
     (a, b, c) < (a', b', c') \<or> ((a, b, c) = (a', b', c') \<and> d < d')"
  by auto

lemma compare_key:
  "compare v w =
     (if version_key v = version_key w then 0
      else if version_key v < version_key w then - 1 else 1)"
proof -
  have eq: "version_key v = version_key w \<longleftrightarrow>
      (major v, minor v, patch v) = (major w, minor w, patch w)
      \<and> map ident_key (prerelease v) = map ident_key (prerelease w)"
    unfolding version_key_def by auto
  have lt: "version_key v < version_key w \<longleftrightarrow>
      (major v, minor v, patch v) < (major w, minor w, patch w)
      \<or> ((major v, minor v, patch v) = (major w, minor w, patch w)
          \<and> (prerelease v = [], map ident_key (prerelease v))
              < (prerelease w = [], map ident_key (prerelease w)))"
    unfolding version_key_def by (rule less_quad)
  show ?thesis
    unfolding compare_def Let_def eq lt compareMain_key comparePre_key
    by (simp only: split: if_splits) (auto)
qed

lemma compare_le: "compare v w \<le> 0 \<longleftrightarrow> version_key v \<le> version_key w"
  by (auto simp: compare_key)

lemma compare_gt: "0 < compare v w \<longleftrightarrow> version_key w < version_key v"
  by (auto simp: compare_key)

lemma semver_compare_tags:
  "parse x = Some v \<Longrightarrow> parse y = Some w \<Longrightarrow> semver_compare x y = Inr (compare v w)"
  by (simp add: semver_compare_def)

lemma sort_insert_key:
  assumes "parse x \<noteq> None"
  shows "\<forall>y\<in>set ys. parse y \<noteq> None \<Longrightarrow> sort_insert x ys = Inr (insort_key tag_key x ys)"
proof (induction ys)
  case Nil
  then show ?case by simp
next
  case (Cons y ys)
  from assms obtain v where v: "parse x = Some v" by auto
  from Cons.prems obtain w where w: "parse y = Some w" by auto
  from Cons have ih: "sort_insert x ys = Inr (insort_key tag_key x ys)" by simp
  have kx: "tag_key x = version_key v" and ky: "tag_key y = version_key w"
    by (simp_all add: tag_key_def v w)
  show ?case
    by (simp add: semver_compare_tags [OF v w] compare_le kx ky ih)
qed

lemma sort_versions_key:
  "\<forall>t\<in>set ts. parse t \<noteq> None \<Longrightarrow> sort_versions ts = Inr (sort_key tag_key ts)"
  by (induction ts) (simp_all add: sort_insert_key)

section \<open>The sort and the greatest tag\<close>

lemma sort_insert_mset: "sort_insert x ys = Inr zs \<Longrightarrow> mset zs = add_mset x (mset ys)"
proof (induction ys arbitrary: zs)
  case Nil
  then show ?case by auto
next
  case (Cons y ys)
  show ?case
  proof (cases "semver_compare x y")
    case (Inl e)
    with Cons.prems show ?thesis by simp
  next
    case (Inr c)
    show ?thesis
    proof (cases "c \<le> 0")
      case True
      with Inr Cons.prems show ?thesis by auto
    next
      case False
      with Inr Cons.prems obtain zs' where z: "sort_insert x ys = Inr zs'" "zs = y # zs'"
        by (cases "sort_insert x ys") auto
      with Cons.IH show ?thesis by simp
    qed
  qed
qed

lemma sort_versions_mset: "sort_versions ts = Inr ys \<Longrightarrow> mset ys = mset ts"
proof (induction ts arbitrary: ys)
  case Nil
  then show ?case by simp
next
  case (Cons x xs)
  then show ?case
    by (cases "sort_versions xs") (auto dest: sort_insert_mset)
qed

lemma sort_insert_parses:
  "sort_insert x (y # ys) = Inr zs \<Longrightarrow> parse x \<noteq> None \<and> parse y \<noteq> None"
  by (cases "parse x"; cases "parse y") (simp_all add: semver_compare_def)

lemma sort_versions_parses:
  "sort_versions ts = Inr ys \<Longrightarrow> 2 \<le> length ts \<Longrightarrow> \<forall>t\<in>set ts. parse t \<noteq> None"
proof (induction ts arbitrary: ys)
  case Nil
  then show ?case by simp
next
  case (Cons x xs)
  from Cons.prems(1) obtain zs where zs: "sort_versions xs = Inr zs" and ins: "sort_insert x zs = Inr ys"
    by (cases "sort_versions xs") auto
  from Cons.prems(2) have ne: "xs \<noteq> []" by auto
  with sort_versions_mset [OF zs] have "zs \<noteq> []" by auto
  then obtain z zs' where z: "zs = z # zs'" by (cases zs) auto
  with ins have px: "parse x \<noteq> None" and pz: "parse z \<noteq> None"
    using sort_insert_parses by blast+
  have "\<forall>t\<in>set xs. parse t \<noteq> None"
  proof (cases "2 \<le> length xs")
    case True
    with Cons.IH zs show ?thesis by blast
  next
    case False
    then have "length xs < 2" by simp
    with ne obtain y where "xs = [y]" by (cases xs) auto
    with zs z pz show ?thesis by auto
  qed
  with px show ?case by simp
qed

lemma sort_versions_fails:
  assumes "2 \<le> length ts" and "\<exists>t\<in>set ts. parse t = None"
  shows "sort_versions ts = Inl TypeError"
proof (cases "sort_versions ts")
  case (Inl e)
  then show ?thesis by (cases e) simp
next
  case (Inr ys)
  from sort_versions_parses [OF this assms(1)] assms(2) show ?thesis by blast
qed

lemma sort_key_nonempty: "ts \<noteq> [] \<Longrightarrow> sort_key k ts \<noteq> []"
proof
  assume ne: "ts \<noteq> []" and e: "sort_key k ts = []"
  have "length ts = length (sort_key k ts)" by (simp only: length_sort)
  also have "\<dots> = 0" by (simp only: e list.size)
  finally show False using ne by simp
qed

lemma sorted_le_last: "sorted xs \<Longrightarrow> x \<in> set xs \<Longrightarrow> x \<le> last xs"
  by (induction xs) auto

lemma last_sort_key:
  assumes "ts \<noteq> []"
  shows "last (sort_key k ts) \<in> set ts" and "\<forall>u\<in>set ts. k u \<le> k (last (sort_key k ts))"
proof -
  let ?s = "sort_key k ts"
  from assms have ne: "?s \<noteq> []" by (rule sort_key_nonempty)
  then have "last ?s \<in> set ?s" by (rule last_in_set)
  then show "last (sort_key k ts) \<in> set ts" by (simp only: set_sort)
  have srt: "sorted (map k ?s)" by (rule sorted_sort_key)
  show "\<forall>u\<in>set ts. k u \<le> k (last (sort_key k ts))"
  proof
    fix u assume "u \<in> set ts"
    then have "k u \<in> set (map k ?s)" by simp
    with srt have "k u \<le> last (map k ?s)" by (rule sorted_le_last)
    with ne show "k u \<le> k (last ?s)" by (simp add: last_map)
  qed
qed

lemma maxVersion_single: "maxVersion [t] = Inr (Some t)"
  by (simp add: maxVersion_def)

lemma maxVersion_valid:
  assumes "ts \<noteq> []" and "\<forall>t\<in>set ts. parse t \<noteq> None"
  shows "\<exists>m. maxVersion ts = Inr (Some m) \<and> m \<in> set ts \<and> (\<forall>u\<in>set ts. tag_key u \<le> tag_key m)"
proof -
  let ?s = "sort_key tag_key ts"
  from assms(1) have ne: "?s \<noteq> []" by (rule sort_key_nonempty)
  have "maxVersion ts = Inr (Some (last ?s))"
    using ne by (simp add: maxVersion_def sort_versions_key [OF assms(2)])
  with last_sort_key [OF assms(1), of tag_key] show ?thesis by blast
qed

lemma maxVersion_fails:
  "2 \<le> length ts \<Longrightarrow> \<exists>t\<in>set ts. parse t = None \<Longrightarrow> maxVersion ts = Inl TypeError"
  by (simp add: maxVersion_def sort_versions_fails)

lemma maxVersion_cases:
  "maxVersion ts = Inl e \<longleftrightarrow> 2 \<le> length ts \<and> (\<exists>t\<in>set ts. parse t = None)"
proof
  assume f: "maxVersion ts = Inl e"
  show "2 \<le> length ts \<and> (\<exists>t\<in>set ts. parse t = None)"
  proof (rule ccontr)
    assume "\<not> ?thesis"
    then consider "ts = []" | t where "ts = [t]" | "ts \<noteq> []" "\<forall>t\<in>set ts. parse t \<noteq> None"
      by (cases ts; cases "tl ts") auto
    then show False
    proof cases
      case 1
      with f show ?thesis by (simp add: maxVersion_def)
    next
      case 2
      with f show ?thesis by (simp add: maxVersion_def)
    next
      case 3
      with maxVersion_valid [OF 3] f show ?thesis by auto
    qed
  qed
next
  assume "2 \<le> length ts \<and> (\<exists>t\<in>set ts. parse t = None)"
  then have "maxVersion ts = Inl TypeError" by (simp add: maxVersion_fails)
  then show "maxVersion ts = Inl e" by (cases e) simp
qed

section \<open>The resolution as a function of the greatest tag\<close>

lemma getMatchingTags_marker:
  "getMatchingTags tags ''v*-bscotch.*'' = (if marker_tags tags = [] then [[]] else marker_tags tags)"
  by (simp add: getMatchingTags_def marker_tags_def Let_def)

lemma marker_tag_v: "t \<in> set (marker_tags tags) \<Longrightarrow> \<exists>t'. t = CHR ''v'' # t'"
  unfolding marker_tags_def using wildmatch_marker by auto

lemma resolveNext_outcome:
  "getMaxMatchingTag tags ''v*-bscotch.*'' = Inr (Some m) \<Longrightarrow> resolveNext b tags = outcome b m"
  by (simp add: resolveNext_def latestTag_def outcome_def Let_def)

lemma resolveNext_error:
  "getMaxMatchingTag tags ''v*-bscotch.*'' = Inl e \<Longrightarrow> resolveNext b tags = Inl e"
  by (simp add: resolveNext_def latestTag_def)

lemma resolveNext_none:
  "marker_tags tags = [] \<Longrightarrow> resolveNext b tags = outcome b []"
  by (rule resolveNext_outcome) (simp add: getMaxMatchingTag_def getMatchingTags_marker maxVersion_single)

lemma resolveNext_single:
  "marker_tags tags = [t] \<Longrightarrow> resolveNext b tags = outcome b t"
  by (rule resolveNext_outcome) (simp add: getMaxMatchingTag_def getMatchingTags_marker maxVersion_single)

lemma resolveNext_valid:
  assumes "marker_tags tags \<noteq> []" and "\<forall>t\<in>set (marker_tags tags). parse t \<noteq> None"
  shows "\<exists>m. resolveNext b tags = outcome b m \<and> m \<in> set (marker_tags tags)
            \<and> (\<forall>u\<in>set (marker_tags tags). tag_key u \<le> tag_key m)"
proof -
  from maxVersion_valid [OF assms] obtain m where
    m: "maxVersion (marker_tags tags) = Inr (Some m)" "m \<in> set (marker_tags tags)"
       "\<forall>u\<in>set (marker_tags tags). tag_key u \<le> tag_key m" by blast
  from m(1) assms(1) have "getMaxMatchingTag tags ''v*-bscotch.*'' = Inr (Some m)"
    by (simp add: getMaxMatchingTag_def getMatchingTags_marker)
  then have "resolveNext b tags = outcome b m" by (rule resolveNext_outcome)
  with m show ?thesis by blast
qed

lemma resolveNext_fails:
  "resolveNext b tags = Inl e \<longleftrightarrow>
     2 \<le> length (marker_tags tags) \<and> (\<exists>t\<in>set (marker_tags tags). parse t = None)"
proof (cases "marker_tags tags = []")
  case True
  then show ?thesis by (simp add: resolveNext_none outcome_def Let_def)
next
  case False
  then have g: "getMaxMatchingTag tags ''v*-bscotch.*'' = maxVersion (marker_tags tags)"
    by (simp add: getMaxMatchingTag_def getMatchingTags_marker)
  show ?thesis
  proof (cases "maxVersion (marker_tags tags)")
    case (Inl e')
    then have e: "maxVersion (marker_tags tags) = Inl e" by (cases e; cases e') simp
    with g have "resolveNext b tags = Inl e" by (simp add: resolveNext_error)
    with e show ?thesis by (simp add: maxVersion_cases)
  next
    case (Inr m)
    then have n: "\<not> (2 \<le> length (marker_tags tags) \<and> (\<exists>t\<in>set (marker_tags tags). parse t = None))"
      using maxVersion_cases [of "marker_tags tags" e] by simp
    from Inr g have "resolveNext b tags \<noteq> Inl e"
      by (simp add: resolveNext_def latestTag_def Let_def)
    with n show ?thesis by simp
  qed
qed

lemma version_key_fields:
  assumes "version_key v = version_key w"
  shows "major v = major w" "minor v = minor w" "patch v = patch w" "prerelease v = prerelease w"
  using assms by (auto simp: version_key_def dest: map_ident_key_inj)

lemma format_key: "version_key v = version_key w \<Longrightarrow> format v = format w"
  using version_key_fields [of v w] by (simp add: format_def)

lemma format_inc_key:
  assumes "version_key v = version_key w"
  shows "format (inc_prerelease v i) = format (inc_prerelease w i)"
proof -
  obtain a b c p x where v: "v = \<lparr>major = a, minor = b, patch = c, prerelease = p, build = x\<rparr>"
    by (cases v) simp
  obtain a' b' c' p' x' where w: "w = \<lparr>major = a', minor = b', patch = c', prerelease = p', build = x'\<rparr>"
    by (cases w) simp
  from version_key_fields [OF assms] have e: "a' = a" "b' = b" "c' = c" "p' = p"
    by (simp_all add: v w)
  show ?thesis
    unfolding v w e
    by (simp add: format_def inc_prerelease_def inc_pre_def inc_patch_def Let_def
          cong: option.case_cong)
qed

lemma clean_base: "is_base b \<Longrightarrow> clean b"
proof -
  assume "is_base b"
  then obtain v where v: "parse b = Some v" "prerelease v = []" "format v = b"
    by (auto simp: is_base_def split: option.splits)
  have "\<forall>c\<in>set (format v). is_idchar c \<or> c = CHR ''.''"
    using format_chars [of v] v(2) by simp
  then show ?thesis
    unfolding v(3) clean_def list_all_iff using idchar_not_sep by (auto simp: is_space_def)
qed

lemma clean_prefix: "clean b \<Longrightarrow> clean (''v'' @ b @ ''-'')"
  by (simp add: clean_def is_space_def)

lemma version_key_build: "version_key (v\<lparr>build := x\<rparr>) = version_key v"
  by (simp add: version_key_def)

lemma outcome_mixed:
  assumes p1: "parse (CHR ''v'' # t1) = Some v1" and p2: "parse (CHR ''v'' # t2) = Some v2"
    and k: "version_key v1 = version_key v2"
    and s1: "startsWith (CHR ''v'' # t1) (''v'' @ b @ ''-'')"
    and s2: "\<not> startsWith (CHR ''v'' # t2) (''v'' @ b @ ''-'')"
  shows "semver_inc (''v'' @ b @ ''-bscotch.0'') i = semver_inc (CHR ''v'' # t1) i"
proof -
  from parse_v_inv_build [OF p1] obtain bd ws where
    t1: "t1 = format v1 @ bd @ ws" and ws: "list_all is_space ws"
    and bd: "bd = [] \<or> (\<exists>z. bd = CHR ''+'' # z \<and> list_all is_build_id (split_on CHR ''.'' z))"
    by auto
  from parse_v_inv [OF p2] obtain rest where "t2 = format v2 @ rest" by auto
  with format_key [OF k] have t2: "t2 = format v1 @ rest" by simp
  from s2 t2 have n: "\<not> prefix (b @ ''-'') (format v1)"
    using prefix_prefix [of "b @ ''-''" "format v1" rest] by (auto simp: startsWith_def)
  from s1 t1 have "prefix (b @ ''-'') (format v1 @ (bd @ ws))" by (simp add: startsWith_def)
  with n obtain us where us: "b @ ''-'' = format v1 @ us" "prefix us (bd @ ws)"
    by (auto simp: prefix_append)
  from us(1) n have ne: "us \<noteq> []" by auto
  from arg_cong [OF us(1), of last] ne have l: "last us = CHR ''-''" by simp
  have pb: "prefix us bd"
  proof (rule ccontr)
    assume c: "\<not> prefix us bd"
    with us(2) obtain us' where u': "us = bd @ us'" "prefix us' ws" by (auto simp: prefix_append)
    from c u'(1) have "us' \<noteq> []" by auto
    with u'(1) l have "last us' = CHR ''-''" by simp
    with last_in_set [OF \<open>us' \<noteq> []\<close>] have "CHR ''-'' \<in> set us'" by simp
    with set_mono_prefix [OF u'(2)] have "CHR ''-'' \<in> set ws" by blast
    moreover from ws have "\<forall>c\<in>set ws. is_space c" by (simp add: list_all_iff)
    ultimately have "is_space CHR ''-''" by blast
    then show False by (simp add: is_space_def)
  qed
  with ne bd obtain z where z: "bd = CHR ''+'' # z" "list_all is_build_id (split_on CHR ''.'' z)"
    by auto
  from pb ne z(1) obtain u where u: "us = CHR ''+'' # u" "prefix u z" by (cases us) auto
  from u(1) l have "u \<noteq> []" by auto
  with u(1) l have "last u = CHR ''-''" by simp
  with append_butlast_last_id [OF \<open>u \<noteq> []\<close>] have "u = butlast u @ ''-''" by simp
  then obtain x where x: "u = x @ ''-''" ..
  from u(2) x obtain y where y: "z = x @ CHR ''-'' # y" by (auto simp: prefix_def)
  from us(1) u(1) x have b: "b = format v1 @ CHR ''+'' # x" by simp
  from z(2) y have "list_all is_build_id (split_on CHR ''.'' (x @ ''-bscotch.0''))"
    using build_replace by blast
  from parse_v_format_build [OF parse_wf [OF p1] this]
  have "parse (''v'' @ b @ ''-bscotch.0'')
      = Some (v1\<lparr>build := split_on CHR ''.'' (x @ ''-bscotch.0'')\<rparr>)"
    by (simp add: b)
  then show ?thesis
    using p1 by (simp add: semver_inc_def format_inc_key [OF version_key_build])
qed

lemma outcome_key:
  assumes "m1 \<in> set (marker_tags tags1)" and "m2 \<in> set (marker_tags tags2)"
    and "parse m1 \<noteq> None" and "parse m2 \<noteq> None"
    and "tag_key m1 = tag_key m2"
  shows "outcome b m1 = outcome b m2"
proof -
  from assms(1,2) obtain t1 t2 where t: "m1 = CHR ''v'' # t1" "m2 = CHR ''v'' # t2"
    using marker_tag_v by blast
  from assms(3,4) obtain v1 v2 where v: "parse m1 = Some v1" "parse m2 = Some v2" by auto
  with assms(5) have k: "version_key v1 = version_key v2" by (simp add: tag_key_def)
  have i: "semver_inc m1 ''bscotch'' = semver_inc m2 ''bscotch''"
    using v format_inc_key [OF k] by (simp add: semver_inc_def)
  consider "startsWith m1 (''v'' @ b @ ''-'') = startsWith m2 (''v'' @ b @ ''-'')"
    | "startsWith m1 (''v'' @ b @ ''-'')" "\<not> startsWith m2 (''v'' @ b @ ''-'')"
    | "\<not> startsWith m1 (''v'' @ b @ ''-'')" "startsWith m2 (''v'' @ b @ ''-'')"
    by blast
  then show ?thesis
  proof cases
    case 1
    with i t show ?thesis by (simp add: outcome_def)
  next
    case 2
    from outcome_mixed [OF v(1) [unfolded t] v(2) [unfolded t] k 2 [unfolded t]]
    have "semver_inc (''v'' @ b @ ''-bscotch.0'') ''bscotch'' = semver_inc m1 ''bscotch''"
      by (simp add: t)
    with 2 t show ?thesis by (simp add: outcome_def)
  next
    case 3
    from outcome_mixed [OF v(2) [unfolded t] v(1) [unfolded t] k [symmetric] 3(2) [unfolded t] 3(1) [unfolded t]]
    have "semver_inc (''v'' @ b @ ''-bscotch.0'') ''bscotch'' = semver_inc m2 ''bscotch''"
      by (simp add: t)
    with 3 t show ?thesis by (simp add: outcome_def)
  qed
qed

lemma resolveNext_TypeError:
  "2 \<le> length (marker_tags tags) \<Longrightarrow> \<exists>t\<in>set (marker_tags tags). parse t = None
   \<Longrightarrow> resolveNext b tags = Inl TypeError"
  using resolveNext_fails [of b tags TypeError] by simp

lemma resolveNext_marker_tags:
  assumes "mset (marker_tags tags1) = mset (marker_tags tags2)"
  shows "resolveNext b tags1 = resolveNext b tags2"
proof -
  let ?M1 = "marker_tags tags1" and ?M2 = "marker_tags tags2"
  from assms have st: "set ?M1 = set ?M2" by (rule mset_eq_setD)
  from assms have ln: "length ?M1 = length ?M2" by (rule mset_eq_length)
  have "length ?M1 = 0 \<or> length ?M1 = 1 \<or> 2 \<le> length ?M1" by arith
  then have "?M1 = [] \<or> (\<exists>t. ?M1 = [t]) \<or> 2 \<le> length ?M1"
    by (metis length_0_conv length_Suc_conv One_nat_def)
  then consider "?M1 = []" | t where "?M1 = [t]"
    | "2 \<le> length ?M1" "\<exists>t\<in>set ?M1. parse t = None"
    | "?M1 \<noteq> []" "\<forall>t\<in>set ?M1. parse t \<noteq> None"
    by fastforce
  then show ?thesis
  proof cases
    case 1
    with ln have "?M2 = []" by simp
    with 1 show ?thesis by (simp add: resolveNext_none)
  next
    case 2
    with assms have "?M2 = [t]" by (metis mset_single_iff_right mset.simps(1) mset.simps(2) single_is_union)
    with 2 show ?thesis by (simp add: resolveNext_single)
  next
    case 3
    with st ln show ?thesis by (simp add: resolveNext_TypeError)
  next
    case 4
    with st ln have 5: "?M2 \<noteq> []" "\<forall>t\<in>set ?M2. parse t \<noteq> None" by auto
    from resolveNext_valid [OF 4, of b] obtain m1 where
      m1: "resolveNext b tags1 = outcome b m1" "m1 \<in> set ?M1" "\<forall>u\<in>set ?M1. tag_key u \<le> tag_key m1"
      by blast
    from resolveNext_valid [OF 5, of b] obtain m2 where
      m2: "resolveNext b tags2 = outcome b m2" "m2 \<in> set ?M2" "\<forall>u\<in>set ?M2. tag_key u \<le> tag_key m2"
      by blast
    from m1 m2 st have "tag_key m1 = tag_key m2" by (simp add: order_antisym)
    with outcome_key [OF m1(2) m2(2)] 4(2) 5(2) m1(2) m2(2)
    have "outcome b m1 = outcome b m2" by blast
    with m1(1) m2(1) show ?thesis by simp
  qed
qed

section \<open>The tags the script creates\<close>

lemma base_version:
  assumes "is_base b"
  obtains vb where "parse b = Some vb" "prerelease vb = []" "build vb = []" "format_main vb = b"
proof -
  from assms obtain vb where v: "parse b = Some vb" "prerelease vb = []" "build vb = []" "format vb = b"
    by (auto simp: is_base_def split: option.splits)
  then have "format_main vb = b" by (simp add: format_split)
  with v that show ?thesis by blast
qed

lemma wf_marker: "wf_ident (StrId ''bscotch'')"
  by (simp add: is_idchar_def is_letter_def is_digit_def)

lemma parse_release_tag:
  assumes "parse b = Some vb" "prerelease vb = []" "build vb = []" "format_main vb = b"
  shows "parse (release_tag b n) = Some (vb\<lparr>prerelease := [StrId ''bscotch'', NumId n]\<rparr>)"
proof -
  let ?v = "vb\<lparr>prerelease := [StrId ''bscotch'', NumId n]\<rparr>"
  have wf: "list_all wf_ident (prerelease ?v)" using wf_marker by simp
  have f: "format ?v = b @ ''-bscotch.'' @ show_nat n"
    using assms(4) by (simp add: format_split format_main_def)
  have "?v\<lparr>build := []\<rparr> = ?v" using assms(3) by simp
  with parse_v_format [OF wf] f show ?thesis by (simp add: release_tag_def)
qed

lemma tag_key_release_tag:
  assumes "parse b = Some vb" "prerelease vb = []" "build vb = []" "format_main vb = b"
  shows "tag_key (release_tag b n)
     = (major vb, minor vb, patch vb, False, [(1, 0, ''bscotch''), (0, n, [])])"
  by (simp add: tag_key_def parse_release_tag [OF assms] version_key_def)

lemma release_tag_le:
  assumes "is_base b"
  shows "tag_key (release_tag b i) \<le> tag_key (release_tag b j) \<longleftrightarrow> i \<le> j"
proof -
  from assms obtain vb where v: "parse b = Some vb" "prerelease vb = []" "build vb = []" "format_main vb = b"
    by (rule base_version)
  show ?thesis by (auto simp: tag_key_release_tag [OF v])
qed

lemma semver_inc_release_tag:
  assumes "is_base b"
  shows "semver_inc (release_tag b n) ''bscotch'' = Some (b @ ''-bscotch.'' @ show_nat (Suc n))"
proof -
  from assms obtain vb where v: "parse b = Some vb" "prerelease vb = []" "build vb = []" "format_main vb = b"
    by (rule base_version)
  show ?thesis
    using v(4)
    by (simp add: semver_inc_def parse_release_tag [OF v] inc_prerelease_def inc_pre_def
        Let_def nth_opt_def format_split format_main_def)
qed

lemma startsWith_release_tag: "startsWith (release_tag b n) (''v'' @ b @ ''-'')"
  by (simp add: startsWith_def release_tag_def)

lemma release_tag_nonempty: "release_tag b n \<noteq> []"
  by (simp add: release_tag_def)

lemma outcome_release_tag:
  assumes "is_base b"
  shows "outcome b (release_tag b n)
     = Inr (Some (b @ ''-bscotch.'' @ show_nat (Suc n)), release_tag b (Suc n))"
proof -
  have t: "(if release_tag b n = [] \<or> \<not> startsWith (release_tag b n) (''v'' @ b @ ''-'')
            then ''v'' @ b @ ''-bscotch.0'' else release_tag b n) = release_tag b n"
    using startsWith_release_tag [of b n] release_tag_nonempty [of b n] by simp
  have r: "release_tag b (Suc n) = ''v'' @ b @ ''-bscotch.'' @ show_nat (Suc n)"
    by (simp add: release_tag_def)
  show ?thesis
    unfolding outcome_def t Let_def semver_inc_release_tag [OF assms] r
    by (simp add: template_string_def)
qed

lemma release_tag_zero: "release_tag b 0 = ''v'' @ b @ ''-bscotch.0''"
  by (simp add: release_tag_def show_nat_zero)

lemma outcome_fallback:
  assumes "is_base b" and "m = [] \<or> \<not> startsWith m (''v'' @ b @ ''-'')"
  shows "outcome b m = Inr (Some (b @ ''-bscotch.'' @ show_nat 1), release_tag b 1)"
proof -
  have "semver_inc (''v'' @ b @ ''-bscotch.0'') ''bscotch'' = Some (b @ ''-bscotch.'' @ show_nat 1)"
    using semver_inc_release_tag [OF assms(1), of 0] by (simp add: release_tag_zero)
  with assms(2) show ?thesis
    by (auto simp: outcome_def template_string_def release_tag_def)
qed

section \<open>Comparing tags\<close>

lemma sorts_not_below_key:
  "sorts_not_below a t \<longleftrightarrow> parse a \<noteq> None \<and> parse t \<noteq> None \<and> tag_key t \<le> tag_key a"
proof (cases "parse a")
  case None
  then show ?thesis by (simp add: sorts_not_below_def semver_compare_def)
next
  case (Some v)
  show ?thesis
  proof (cases "parse t")
    case None
    with Some show ?thesis by (simp add: sorts_not_below_def semver_compare_def)
  next
    case (Some w)
    with \<open>parse a = Some v\<close> show ?thesis
      using compare_gt [of w v] compare_le [of v w]
      by (auto simp: sorts_not_below_def semver_compare_def tag_key_def compare_key)
  qed
qed

lemma sorts_above_key:
  "sorts_above a t \<longleftrightarrow> parse a \<noteq> None \<and> parse t \<noteq> None \<and> tag_key t < tag_key a"
proof (cases "parse a")
  case None
  then show ?thesis by (simp add: sorts_above_def semver_compare_def)
next
  case (Some v)
  show ?thesis
  proof (cases "parse t")
    case None
    with Some show ?thesis by (simp add: sorts_above_def semver_compare_def)
  next
    case (Some w)
    with \<open>parse a = Some v\<close> show ?thesis
      by (simp add: sorts_above_def semver_compare_def tag_key_def compare_gt)
  qed
qed

lemma greatest_marker_tagD:
  assumes "greatest_marker_tag tags t"
  shows "t \<in> set (marker_tags tags)" "marker_tags tags \<noteq> []"
    "\<forall>u\<in>set (marker_tags tags). parse u \<noteq> None"
    "\<forall>u\<in>set (marker_tags tags). tag_key u \<le> tag_key t"
  using assms by (auto simp: greatest_marker_tag_def list_all_iff sorts_not_below_key)

lemma resolveNext_greatest:
  assumes "greatest_marker_tag tags t"
  shows "resolveNext b tags = outcome b t"
proof -
  note g = greatest_marker_tagD [OF assms]
  from resolveNext_valid [OF g(2,3), of b] obtain m where
    m: "resolveNext b tags = outcome b m" "m \<in> set (marker_tags tags)"
       "\<forall>u\<in>set (marker_tags tags). tag_key u \<le> tag_key m" by blast
  from m(2,3) g(1,4) have "tag_key m = tag_key t" by (simp add: order_antisym)
  with outcome_key [OF m(2) g(1)] m(2) g(1,3) have "outcome b m = outcome b t" by blast
  with m(1) show ?thesis by simp
qed


section \<open>The cases of the resolution\<close>

lemma maxVersion_in: "maxVersion ts = Inr (Some t) \<Longrightarrow> t \<in> set ts"
proof -
  assume a: "maxVersion ts = Inr (Some t)"
  then obtain ys where ys: "sort_versions ts = Inr ys" "ys \<noteq> []" "t = last ys"
    by (cases "sort_versions ts") (auto simp: maxVersion_def split: if_splits)
  from sort_versions_mset [OF ys(1)] have "set ys = set ts" by (rule mset_eq_setD)
  with ys(2,3) show ?thesis using last_in_set by blast
qed

lemma maxVersion_none: "maxVersion ts = Inr None \<Longrightarrow> ts = []"
proof -
  assume a: "maxVersion ts = Inr None"
  then have "sort_versions ts = Inr []"
    by (cases "sort_versions ts") (auto simp: maxVersion_def split: if_splits)
  from sort_versions_mset [OF this] show ?thesis by simp
qed

lemma resolveNext_cases:
  "resolveNext b tags = Inl TypeError
   \<or> (\<exists>m. (m = [] \<or> m \<in> set (marker_tags tags)) \<and> resolveNext b tags = outcome b m)"
proof (cases "getMaxMatchingTag tags ''v*-bscotch.*''")
  case (Inl e)
  then show ?thesis by (cases e) (simp add: resolveNext_error)
next
  case (Inr mo)
  show ?thesis
  proof (cases "marker_tags tags = []")
    case True
    then have "resolveNext b tags = outcome b []" by (rule resolveNext_none)
    then show ?thesis by blast
  next
    case False
    with Inr have mx: "maxVersion (marker_tags tags) = Inr mo"
      by (simp add: getMaxMatchingTag_def getMatchingTags_marker)
    show ?thesis
    proof (cases mo)
      case None
      with mx False show ?thesis using maxVersion_none by blast
    next
      case (Some m)
      with mx have "m \<in> set (marker_tags tags)" using maxVersion_in by blast
      moreover from Inr Some have "resolveNext b tags = outcome b m"
        by (simp add: resolveNext_outcome)
      ultimately show ?thesis by blast
    qed
  qed
qed

lemma show_nat_one: "show_nat (Suc 0) = ''1''"
  by (subst show_nat.simps) (simp add: digit_char_def)

lemma is_release_tag_iff: "is_release_tag b t \<longleftrightarrow> (\<exists>n. t = release_tag b n)"
proof
  assume a: "is_release_tag b t"
  let ?p = "''v'' @ b @ ''-bscotch.''"
  from a have "prefix ?p t" by (simp add: is_release_tag_def startsWith_def)
  then obtain r where t: "t = ?p @ r" by (auto simp: prefix_def)
  then have "drop (length ?p) t = r" by simp
  with a have "is_numeric_id r" by (simp add: is_release_tag_def)
  then have "show_nat (nat_of_digits r) = r" by (rule show_nat_of_digits)
  with t have "t = release_tag b (nat_of_digits r)" by (simp add: release_tag_def)
  then show "\<exists>n. t = release_tag b n" ..
next
  assume "\<exists>n. t = release_tag b n"
  then obtain n where "t = release_tag b n" ..
  then show "is_release_tag b t"
    by (simp add: is_release_tag_def release_tag_def startsWith_def is_numeric_id_show_nat)
qed

lemma base_no_dash: "is_base b \<Longrightarrow> \<forall>c\<in>set b. c \<noteq> CHR ''-''"
proof -
  assume "is_base b"
  then obtain vb where "format_main vb = b" by (rule base_version)
  then show ?thesis using format_main_chars [of _ vb] digit_not_sep by auto
qed

lemma base_of_release_tag:
  assumes "is_base b" "is_base b'" "startsWith (release_tag b' n) (''v'' @ b @ ''-'')"
  shows "b' = b"
proof -
  from assms(3) obtain z where "release_tag b' n = (''v'' @ b @ ''-'') @ z"
    by (auto simp: startsWith_def prefix_def)
  then have e: "b' @ CHR ''-'' # (''bscotch.'' @ show_nat n) = b @ CHR ''-'' # z"
    by (simp add: release_tag_def)
  have "takeWhile (\<lambda>c. c \<noteq> CHR ''-'') (b' @ CHR ''-'' # (''bscotch.'' @ show_nat n)) = b'"
    using base_no_dash [OF assms(2)] by (intro takeWhile_stop) auto
  moreover have "takeWhile (\<lambda>c. c \<noteq> CHR ''-'') (b @ CHR ''-'' # z) = b"
    using base_no_dash [OF assms(1)] by (intro takeWhile_stop) auto
  ultimately show ?thesis using e by simp
qed

lemma script_tagD: "script_tag t \<Longrightarrow> \<exists>b n. is_base b \<and> t = release_tag b n"
  unfolding script_tag_def Let_def is_release_tag_iff by blast

lemma parse_script_tag: "is_base b \<Longrightarrow> parse (release_tag b n) \<noteq> None"
  using parse_release_tag base_version by (metis option.distinct(1))

section \<open>The active family\<close>

lemma inc_last_number_key:
  "inc_last_number xs = Some ys \<Longrightarrow> map ident_key xs < map ident_key ys"
proof (induction xs arbitrary: ys)
  case Nil
  then show ?case by simp
next
  case (Cons x xs)
  show ?case
  proof (cases "inc_last_number xs")
    case None
    with Cons.prems show ?thesis by (cases x) auto
  next
    case (Some zs)
    with Cons.prems have "ys = x # zs" by simp
    with Cons.IH [OF Some] show ?thesis by simp
  qed
qed

lemma inc_last_number_wf:
  "inc_last_number xs = Some ys \<Longrightarrow> list_all wf_ident xs \<Longrightarrow> list_all wf_ident ys"
proof (induction xs arbitrary: ys)
  case Nil
  then show ?case by simp
next
  case (Cons x xs)
  show ?case
  proof (cases "inc_last_number xs")
    case None
    with Cons.prems show ?thesis by (cases x) auto
  next
    case (Some zs)
    with Cons.prems have "ys = x # zs" by simp
    with Cons.IH [OF Some] Cons.prems(2) show ?thesis by simp
  qed
qed

lemma inc_last_number_counter:
  "\<exists>n' zs. inc_last_number (x # NumId n # xs) = Some (x # NumId n' # zs)"
  by (cases "inc_last_number xs") auto

lemma inc_prerelease_counter:
  assumes "prerelease v = StrId i # NumId n # rest"
  shows "\<exists>n' zs. inc_last_number (prerelease v) = Some (StrId i # NumId n' # zs)
           \<and> inc_prerelease v i = v\<lparr>prerelease := StrId i # NumId n' # zs\<rparr>"
proof -
  from inc_last_number_counter [of "StrId i" n rest] obtain n' zs where
    z: "inc_last_number (StrId i # NumId n # rest) = Some (StrId i # NumId n' # zs)" by blast
  with assms have "inc_prerelease v i = v\<lparr>prerelease := StrId i # NumId n' # zs\<rparr>"
    by (simp add: inc_prerelease_def inc_pre_def Let_def nth_opt_def)
  with z assms show ?thesis by simp
qed

lemma format_marker:
  "prerelease v = StrId s # x # xs \<Longrightarrow> \<exists>y. format v = format_main v @ CHR ''-'' # s @ CHR ''.'' # y"
  by (simp add: format_split)

lemma in_familyD:
  assumes "is_base b" and "in_family b t"
  obtains t' vt more where "t = CHR ''v'' # t'" "parse t = Some vt" "format_main vt = b"
    "prerelease vt = StrId ''bscotch'' # more"
proof -
  from assms(1) obtain vb where vb: "parse b = Some vb" "format_main vb = b" by (rule base_version)
  from assms(2) obtain t' where t: "t = CHR ''v'' # t'"
    by (cases t) (auto simp: in_family_def startsWith_def)
  from assms(2) vb(1) obtain vt where vt: "parse t = Some vt"
    "major vt = major vb" "minor vt = minor vb" "patch vt = patch vb"
    "nth_opt (prerelease vt) 0 = Some (StrId ''bscotch'')"
    by (auto simp: in_family_def split: option.splits)
  from vt(2-4) vb(2) have f: "format_main vt = b" by (simp add: format_main_def)
  from vt(5) obtain more where "prerelease vt = StrId ''bscotch'' # more"
    by (cases "prerelease vt") (auto simp: nth_opt_def)
  with t vt(1) f that show ?thesis by blast
qed

lemma family_startsWith:
  assumes "is_base b" and "in_family b t"
  shows "startsWith t (''v'' @ b @ ''-'')"
proof -
  from assms obtain t' vt more where t: "t = CHR ''v'' # t'" "parse t = Some vt"
    "format_main vt = b" "prerelease vt = StrId ''bscotch'' # more" by (rule in_familyD)
  have c: "clean (''v'' @ b @ ''-'')" using clean_base [OF assms(1)] by (rule clean_prefix)
  have "prefix (''v'' @ b @ ''-'') (CHR ''v'' # format vt)"
    using t(3,4) by (simp add: format_split)
  with startsWith_format [OF c, of t' vt] t(1,2) show ?thesis by simp
qed

lemma family_marker:
  assumes "is_base b" and "in_family b t" and "parse t = Some vt" and "prerelease vt = i # x # xs"
  shows "wildmatch ''v*-bscotch.*'' t"
proof -
  from assms(1,2) obtain t' vt' more where t: "t = CHR ''v'' # t'" "parse t = Some vt'"
    "prerelease vt' = StrId ''bscotch'' # more" by (rule in_familyD)
  with assms(3,4) have p: "prerelease vt = StrId ''bscotch'' # x # xs" by simp
  from format_marker [OF p] obtain y where
    f: "format vt = format_main vt @ CHR ''-'' # ''bscotch'' @ CHR ''.'' # y" by blast
  from parse_v_inv [of t' vt] t(1) assms(3) obtain rest where
    "t = CHR ''v'' # format vt @ rest" by auto
  with f have "t = CHR ''v'' # format_main vt @ ''-bscotch.'' @ (y @ rest)" by simp
  then show ?thesis unfolding wildmatch_marker by blast
qed

lemma family_key_le:
  assumes "is_base b" and "in_family b t" and "t \<in> set tags"
    and "in_family b m" and "\<forall>u\<in>set (marker_tags tags). tag_key u \<le> tag_key m"
  shows "tag_key t \<le> tag_key m"
proof -
  from assms(1,2) obtain t' vt more where t: "t = CHR ''v'' # t'" "parse t = Some vt"
    "format_main vt = b" "prerelease vt = StrId ''bscotch'' # more" by (rule in_familyD)
  from assms(1,4) obtain m' vm more' where m: "m = CHR ''v'' # m'" "parse m = Some vm"
    "format_main vm = b" "prerelease vm = StrId ''bscotch'' # more'" by (rule in_familyD)
  show ?thesis
  proof (cases more)
    case Nil
    from assms(1) obtain vb where vb: "parse b = Some vb" by (rule base_version)
    from assms(2,4) vb t(2) m(2) have "major vt = major vm" "minor vt = minor vm" "patch vt = patch vm"
      by (auto simp: in_family_def)
    with Nil t(2,4) m(2,4) show ?thesis
      by (simp add: tag_key_def version_key_def)
  next
    case (Cons x xs)
    with t(4) have "prerelease vt = StrId ''bscotch'' # x # xs" by simp
    from family_marker [OF assms(1,2) t(2) this] assms(3) have "t \<in> set (marker_tags tags)"
      by (simp add: marker_tags_def)
    with assms(5) show ?thesis by blast
  qed
qed

lemma in_family_key:
  assumes "in_family b m" and "m' \<in> set (marker_tags tags)" and "parse m' \<noteq> None"
    and "tag_key m' = tag_key m"
  shows "in_family b m'"
proof -
  from assms(2) obtain r where r: "m' = CHR ''v'' # r" using marker_tag_v by blast
  from assms(1) obtain vb vm where v: "parse b = Some vb" "parse m = Some vm"
    by (auto simp: in_family_def split: option.splits)
  from assms(3) obtain vm' where v': "parse m' = Some vm'" by auto
  from assms(4) v v' have "version_key vm' = version_key vm" by (simp add: tag_key_def)
  from version_key_fields [OF this] assms(1) v v' r show ?thesis
    by (simp add: in_family_def startsWith_def)
qed


lemma format_main_inj:
  assumes "format_main v = format_main w"
  shows "major v = major w" "minor v = minor w" "patch v = patch w"
proof -
  from assms have "split_on CHR ''.'' (format_main v) = split_on CHR ''.'' (format_main w)" by simp
  then have e: "show_nat (major v) = show_nat (major w)" "show_nat (minor v) = show_nat (minor w)"
    "show_nat (patch v) = show_nat (patch w)" by (simp_all add: split_main)
  from e(1) show "major v = major w" by (metis nat_of_digits_show_nat)
  from e(2) show "minor v = minor w" by (metis nat_of_digits_show_nat)
  from e(3) show "patch v = patch w" by (metis nat_of_digits_show_nat)
qed

lemma startsWith_base:
  assumes "is_base b" and "parse (CHR ''v'' # t) = Some v"
    and "startsWith (CHR ''v'' # t) (''v'' @ b @ ''-'')"
  shows "format_main v = b" "prerelease v \<noteq> []"
proof -
  have c: "clean (''v'' @ b @ ''-'')" using clean_base [OF assms(1)] by (rule clean_prefix)
  from startsWith_format [OF c assms(2)] assms(3) have "prefix (b @ ''-'') (format v)" by simp
  then obtain z where z: "format v = b @ CHR ''-'' # z" by (auto simp: prefix_def)
  have nb: "\<forall>c\<in>set b. c \<noteq> CHR ''-''" using assms(1) by (rule base_no_dash)
  have nf: "\<forall>c\<in>set (format_main v). c \<noteq> CHR ''-''"
    using format_main_chars [of _ v] digit_not_sep by auto
  have "takeWhile (\<lambda>c. c \<noteq> CHR ''-'') (format v) = format_main v"
    using nf by (simp add: format_split takeWhile_all takeWhile_stop)
  moreover have "takeWhile (\<lambda>c. c \<noteq> CHR ''-'') (b @ CHR ''-'' # z) = b"
    using nb by (rule takeWhile_stop) simp
  ultimately show m: "format_main v = b" using z by simp
  show "prerelease v \<noteq> []"
  proof
    assume "prerelease v = []"
    then have "format v = format_main v" by (simp add: format_split)
    with m z show False by simp
  qed
qed

lemma inc_prerelease_marker:
  assumes "prerelease v \<noteq> []" and "list_all wf_ident (prerelease v)" and "wf_ident (StrId i)"
  shows "\<exists>rest. inc_prerelease v i = v\<lparr>prerelease := StrId i # rest\<rparr> \<and> list_all wf_ident rest"
proof -
  define p1 where "p1 = (case inc_last_number (prerelease v) of Some ys \<Rightarrow> ys
                          | None \<Rightarrow> prerelease v @ [NumId 0])"
  have w1: "list_all wf_ident p1"
    using assms(2) inc_last_number_wf [of "prerelease v"]
    by (cases "inc_last_number (prerelease v)") (simp_all add: p1_def)
  have e: "inc_prerelease v i = v\<lparr>prerelease :=
      (if nth_opt p1 0 = Some (StrId i)
       then (if isNaN (nth_opt p1 1) then [StrId i, NumId 0] else p1)
       else [StrId i, NumId 0])\<rparr>"
    using assms(1) by (simp add: inc_prerelease_def inc_pre_def Let_def p1_def)
  show ?thesis
  proof (cases "nth_opt p1 0 = Some (StrId i) \<and> \<not> isNaN (nth_opt p1 1)")
    case True
    then obtain rest where "p1 = StrId i # rest" by (cases p1) (auto simp: nth_opt_def)
    with True e w1 show ?thesis by auto
  next
    case False
    with e have "inc_prerelease v i = v\<lparr>prerelease := StrId i # [NumId 0]\<rparr>
        \<and> list_all wf_ident [NumId 0]" by auto
    then show ?thesis by blast
  qed
qed

lemma in_family_formatted:
  assumes "is_base b" and "format_main v = b" and "prerelease v = StrId ''bscotch'' # rest"
    and "list_all wf_ident rest"
  shows "in_family b (CHR ''v'' # format v)"
proof -
  from assms(1) obtain vb where vb: "parse b = Some vb" "format_main vb = b" by (rule base_version)
  have wf: "list_all wf_ident (prerelease v)" using assms(3,4) wf_marker by simp
  from format_main_inj [of v vb] assms(2) vb(2)
  have "major v = major vb" "minor v = minor vb" "patch v = patch vb" by simp_all
  with parse_v_format [OF wf] vb(1) assms(3) show ?thesis
    by (simp add: in_family_def startsWith_def nth_opt_def)
qed

lemma outcome_in_family:
  assumes "is_base b" and "m = [] \<or> m \<in> set (marker_tags tags)"
    and "\<forall>t\<in>set (marker_tags tags). parse t \<noteq> None"
  shows "\<exists>nv. outcome b m = Inr (Some nv, ''v'' @ nv) \<and> in_family b (''v'' @ nv)"
proof (cases "m = [] \<or> \<not> startsWith m (''v'' @ b @ ''-'')")
  case True
  from assms(1) obtain vb where vb: "parse b = Some vb" "prerelease vb = []" "build vb = []"
    "format_main vb = b" by (rule base_version)
  let ?v = "vb\<lparr>prerelease := [StrId ''bscotch'', NumId 1]\<rparr>"
  have "in_family b (CHR ''v'' # format ?v)"
    using vb(4) by (intro in_family_formatted [OF assms(1), where rest = "[NumId 1]"])
      (simp_all add: format_main_def)
  moreover have "format ?v = b @ ''-bscotch.'' @ show_nat 1"
    using vb(4) by (simp add: format_split format_main_def)
  ultimately have "in_family b (''v'' @ b @ ''-bscotch.'' @ show_nat 1)" by simp
  with outcome_fallback [OF assms(1) True] show ?thesis by (simp add: release_tag_def)
next
  case False
  with assms(2) have i: "m \<in> set (marker_tags tags)" and sw: "startsWith m (''v'' @ b @ ''-'')"
    by auto
  from i obtain t where t: "m = CHR ''v'' # t" using marker_tag_v by blast
  from i assms(3) obtain vm where vm: "parse m = Some vm" by auto
  from startsWith_base [OF assms(1)] vm sw t
  have f: "format_main vm = b" and ne: "prerelease vm \<noteq> []" by simp_all
  from inc_prerelease_marker [OF ne parse_wf [OF vm] wf_marker] obtain rest where
    r: "inc_prerelease vm ''bscotch'' = vm\<lparr>prerelease := StrId ''bscotch'' # rest\<rparr>"
       "list_all wf_ident rest" by blast
  let ?v = "inc_prerelease vm ''bscotch''"
  have "in_family b (CHR ''v'' # format ?v)"
    using f r by (intro in_family_formatted [OF assms(1), where rest = rest])
      (simp_all add: format_main_def)
  moreover have "outcome b m = Inr (Some (format ?v), ''v'' @ format ?v)"
    using False vm by (simp add: outcome_def semver_inc_def template_string_def)
  ultimately show ?thesis by simp
qed


section \<open>The claims\<close>

text \<open>
  Claim C1. For every valid base version and every set of tag strings, the returned tag
  is not an element of the input tag set and sorts strictly above every tag of the active
  family. The script does not keep this guarantee. It takes the greatest of all the tags
  matching \<^verbatim>\<open>v*-bscotch.*\<close> and only then tests the prefix
  \<^verbatim>\<open>v<base>-\<close>, so that a tag of a higher base version hides the active
  family: with base version \<^verbatim>\<open>1.0.0\<close> and the tags
  \<^verbatim>\<open>v1.0.0-bscotch.1\<close> and \<^verbatim>\<open>v2.0.0-bscotch.0\<close> the
  script returns \<^verbatim>\<open>v1.0.0-bscotch.1\<close>, a tag of the input and of the active
  family, which does not sort above itself.
\<close>

theorem next_tag_repeats_existing_tag:
  "is_base ''1.0.0''
   \<and> resolveNext ''1.0.0'' [''v1.0.0-bscotch.1'', ''v2.0.0-bscotch.0'']
       = Inr (Some ''1.0.0-bscotch.1'', ''v1.0.0-bscotch.1'')
   \<and> ''v1.0.0-bscotch.1'' \<in> set [''v1.0.0-bscotch.1'', ''v2.0.0-bscotch.0'']
   \<and> in_family ''1.0.0'' ''v1.0.0-bscotch.1''
   \<and> \<not> sorts_above ''v1.0.0-bscotch.1'' ''v1.0.0-bscotch.1''"
  by code_simp

text \<open>
  Claim C2. For every valid base version and every tag set whose active family is not
  empty, the anchor that is incremented is the maximum tag of the active family. The
  script misses it when a tag of another base version is the greatest of the tags matching
  \<^verbatim>\<open>v*-bscotch.*\<close>: with base version \<^verbatim>\<open>1.0.0\<close> and the tags
  \<^verbatim>\<open>v1.0.0-bscotch.3\<close> and \<^verbatim>\<open>v2.0.0-bscotch.0\<close> the active
  family holds \<^verbatim>\<open>v1.0.0-bscotch.3\<close>, and the anchor is the synthetic
  \<^verbatim>\<open>v1.0.0-bscotch.0\<close>, which is no tag of the input and sorts below the tag
  of the family, so that the next tag is \<^verbatim>\<open>v1.0.0-bscotch.1\<close>.
\<close>

theorem anchor_misses_family_maximum:
  "is_base ''1.0.0''
   \<and> in_family ''1.0.0'' ''v1.0.0-bscotch.3''
   \<and> latestTag ''1.0.0'' [''v1.0.0-bscotch.3'', ''v2.0.0-bscotch.0''] = Inr ''v1.0.0-bscotch.0''
   \<and> ''v1.0.0-bscotch.0'' \<notin> set [''v1.0.0-bscotch.3'', ''v2.0.0-bscotch.0'']
   \<and> \<not> sorts_not_below ''v1.0.0-bscotch.0'' ''v1.0.0-bscotch.3''
   \<and> resolveNext ''1.0.0'' [''v1.0.0-bscotch.3'', ''v2.0.0-bscotch.0'']
       = Inr (Some ''1.0.0-bscotch.1'', ''v1.0.0-bscotch.1'')"
  by code_simp

text \<open>
  Claim C3, as amended. For every valid base version \<open>B\<close>, whenever the resolution does
  not fail and no tag matching the marker pattern starts with \<^verbatim>\<open>v<B>-\<close> (in
  particular for an empty tag list, and after the base version of the manifest is bumped
  away from the base version of all existing tags), the resolution returns
  \<^verbatim>\<open>v<B>-bscotch.1\<close>: the synthetic anchor \<^verbatim>\<open>v<B>-bscotch.0\<close> incremented once.
\<close>

theorem new_family_starts_at_one:
  assumes "is_base b"
    and "resolveNext b tags \<noteq> Inl TypeError"
    and "\<forall>t\<in>set (marker_tags tags). \<not> startsWith t (''v'' @ b @ ''-'')"
  shows "resolveNext b tags = Inr (Some (b @ ''-bscotch.1''), ''v'' @ b @ ''-bscotch.1'')"
proof -
  from resolveNext_cases [of b tags] assms(2) obtain m where
    m: "m = [] \<or> m \<in> set (marker_tags tags)" "resolveNext b tags = outcome b m" by blast
  from m(1) assms(3) have "m = [] \<or> \<not> startsWith m (''v'' @ b @ ''-'')" by blast
  from outcome_fallback [OF assms(1) this] m(2) show ?thesis
    by (simp add: show_nat_one release_tag_def)
qed

theorem new_family_starts_at_one_witness:
  "is_base ''1.3.0''
   \<and> resolveNext ''1.3.0'' [''v1.2.0-bscotch.4'', ''v1.2.0-bscotch.5'', ''v1.3.0''] \<noteq> Inl TypeError
   \<and> list_all (\<lambda>t. \<not> startsWith t ''v1.3.0-'')
         (marker_tags [''v1.2.0-bscotch.4'', ''v1.2.0-bscotch.5'', ''v1.3.0''])
   \<and> resolveNext ''1.3.0'' [''v1.2.0-bscotch.4'', ''v1.2.0-bscotch.5'', ''v1.3.0'']
       = Inr (Some ''1.3.0-bscotch.1'', ''v1.3.0-bscotch.1'')"
proof -
  have b: "is_base ''1.3.0''" by code_simp
  have n: "resolveNext ''1.3.0'' [''v1.2.0-bscotch.4'', ''v1.2.0-bscotch.5'', ''v1.3.0''] \<noteq> Inl TypeError"
    by code_simp
  have l: "list_all (\<lambda>t. \<not> startsWith t ''v1.3.0-'')
         (marker_tags [''v1.2.0-bscotch.4'', ''v1.2.0-bscotch.5'', ''v1.3.0''])" by code_simp
  then have h: "\<forall>t\<in>set (marker_tags [''v1.2.0-bscotch.4'', ''v1.2.0-bscotch.5'', ''v1.3.0'']).
      \<not> startsWith t (''v'' @ ''1.3.0'' @ ''-'')" by (simp add: list_all_iff)
  from new_family_starts_at_one [OF b n h] b n l show ?thesis by simp
qed

theorem new_family_counterexample:
  "is_base ''1.0.0''
   \<and> resolveNext ''1.0.0'' [] = Inr (Some ''1.0.0-bscotch.1'', ''v1.0.0-bscotch.1'')
   \<and> resolveNext ''1.0.0'' [] \<noteq> Inr (Some ''1.0.0-bscotch.0'', ''v1.0.0-bscotch.0'')
   \<and> is_base ''1.3.0''
   \<and> \<not> in_family ''1.3.0'' ''v1.2.0-bscotch.4''
   \<and> \<not> in_family ''1.3.0'' ''v1.2.0-bscotch.5''
   \<and> resolveNext ''1.3.0'' [''v1.2.0-bscotch.4'', ''v1.2.0-bscotch.5'']
       = Inr (Some ''1.3.0-bscotch.1'', ''v1.3.0-bscotch.1'')"
  by code_simp

text \<open>
  Claim C4. For every valid base version \<open>B\<close> and every tag list whose tags matching
  the marker pattern are exactly \<^verbatim>\<open>v<B>-bscotch.0\<close> to \<^verbatim>\<open>v<B>-bscotch.k\<close>, the
  resolution returns \<^verbatim>\<open>v<B>-bscotch.(k+1)\<close>: the counter of the greatest tag plus
  one, with the marker and the base version unchanged.
\<close>

theorem family_increment:
  assumes "is_base b" and "set (marker_tags tags) = release_tag b ` {0..k}"
  shows "resolveNext b tags = Inr (Some (b @ ''-bscotch.'' @ show_nat (k + 1)), release_tag b (k + 1))"
proof -
  from assms(1) obtain vb where v: "parse b = Some vb" "prerelease vb = []" "build vb = []" "format_main vb = b"
    by (rule base_version)
  have ne: "marker_tags tags \<noteq> []" using assms(2) by auto
  have ok: "\<forall>t\<in>set (marker_tags tags). parse t \<noteq> None"
    using assms(2) parse_release_tag [OF v] by auto
  from resolveNext_valid [OF ne ok, of b] obtain m where
    m: "resolveNext b tags = outcome b m" "m \<in> set (marker_tags tags)"
       "\<forall>u\<in>set (marker_tags tags). tag_key u \<le> tag_key m" by blast
  from m(2) assms(2) obtain j where j: "m = release_tag b j" "j \<le> k" by auto
  have "release_tag b k \<in> set (marker_tags tags)" using assms(2) by simp
  with m(3) j(1) have "k \<le> j" using release_tag_le [OF assms(1)] by blast
  with j have "m = release_tag b k" by simp
  with m(1) outcome_release_tag [OF assms(1), of k] show ?thesis by simp
qed

theorem family_increment_witness:
  "is_base ''1.0.0''
   \<and> set (marker_tags [''v1.0.0-bscotch.1'', ''v0.9.0'', ''v1.0.0-bscotch.0''])
       = release_tag ''1.0.0'' ` {0..1}
   \<and> resolveNext ''1.0.0'' [''v1.0.0-bscotch.1'', ''v0.9.0'', ''v1.0.0-bscotch.0'']
       = Inr (Some ''1.0.0-bscotch.2'', ''v1.0.0-bscotch.2'')"
proof -
  have b: "is_base ''1.0.0''" by code_simp
  have s: "set (marker_tags [''v1.0.0-bscotch.1'', ''v0.9.0'', ''v1.0.0-bscotch.0''])
       = release_tag ''1.0.0'' ` {0..1}" by code_simp
  have e: "show_nat (1 + 1) = ''2''" by code_simp
  have r: "release_tag ''1.0.0'' (1 + 1) = ''v1.0.0-bscotch.2''" by code_simp
  from family_increment [OF b s]
  have "resolveNext ''1.0.0'' [''v1.0.0-bscotch.1'', ''v0.9.0'', ''v1.0.0-bscotch.0'']
       = Inr (Some (''1.0.0'' @ ''-bscotch.'' @ ''2''), ''v1.0.0-bscotch.2'')"
    unfolding e r .
  with b s show ?thesis by simp
qed

text \<open>
  Claim C5. For every valid base version and every tag set, removing or adding tags
  outside the active family never changes the returned version and tag. The script
  breaks it for a tag of a higher base version that matches
  \<^verbatim>\<open>v*-bscotch.*\<close>: with base version \<^verbatim>\<open>1.0.0\<close> the tag
  \<^verbatim>\<open>v1.0.0-bscotch.3\<close> alone gives \<^verbatim>\<open>v1.0.0-bscotch.4\<close>, and
  adding \<^verbatim>\<open>v2.0.0-bscotch.0\<close>, which is outside the active family, gives
  \<^verbatim>\<open>v1.0.0-bscotch.1\<close>. A tag of a lower base version is ignored, as in the
  example of the specification.
\<close>

theorem higher_base_tag_changes_result:
  "is_base ''1.0.0''
   \<and> \<not> in_family ''1.0.0'' ''v2.0.0-bscotch.0''
   \<and> resolveNext ''1.0.0'' [''v1.0.0-bscotch.3'']
       = Inr (Some ''1.0.0-bscotch.4'', ''v1.0.0-bscotch.4'')
   \<and> resolveNext ''1.0.0'' [''v1.0.0-bscotch.3'', ''v2.0.0-bscotch.0'']
       = Inr (Some ''1.0.0-bscotch.1'', ''v1.0.0-bscotch.1'')
   \<and> resolveNext ''2.0.0'' [''v2.0.0-bscotch.0'', ''v2.0.0-bscotch.1'', ''v1.9.9-bscotch.7'']
       = Inr (Some ''2.0.0-bscotch.2'', ''v2.0.0-bscotch.2'')"
  by code_simp

text \<open>
  Claim C6. For every base version, valid or not, the returned version and tag are the
  same for every ordering of the tag list: two lists with the same tags give the same
  result, be it the pair of version and tag or the error of the sort.
\<close>

theorem order_independence:
  assumes "mset tags1 = mset tags2"
  shows "resolveNext b tags1 = resolveNext b tags2"
proof -
  have "mset (marker_tags tags1) = mset (marker_tags tags2)"
    unfolding marker_tags_def mset_filter using assms by simp
  then show ?thesis by (rule resolveNext_marker_tags)
qed

theorem order_independence_witness:
  "is_base ''1.0.0''
   \<and> mset [''v1.0.0-bscotch.9'', ''v1.0.0-bscotch.10''] = mset [''v1.0.0-bscotch.10'', ''v1.0.0-bscotch.9'']
   \<and> resolveNext ''1.0.0'' [''v1.0.0-bscotch.9'', ''v1.0.0-bscotch.10'']
       = resolveNext ''1.0.0'' [''v1.0.0-bscotch.10'', ''v1.0.0-bscotch.9'']
   \<and> resolveNext ''1.0.0'' [''v1.0.0-bscotch.10'', ''v1.0.0-bscotch.9'']
       = Inr (Some ''1.0.0-bscotch.11'', ''v1.0.0-bscotch.11'')"
proof -
  have b: "is_base ''1.0.0''" by code_simp
  have m: "mset [''v1.0.0-bscotch.9'', ''v1.0.0-bscotch.10''] = mset [''v1.0.0-bscotch.10'', ''v1.0.0-bscotch.9'']"
    by simp
  have r: "resolveNext ''1.0.0'' [''v1.0.0-bscotch.10'', ''v1.0.0-bscotch.9'']
       = Inr (Some ''1.0.0-bscotch.11'', ''v1.0.0-bscotch.11'')" by code_simp
  from order_independence [OF m, of "''1.0.0''"] b m r show ?thesis by simp
qed

text \<open>
  Claim C7, as amended. The resolution has no error for the base version: whether it
  fails does not depend on the base version, valid or not. When no tag matches the
  marker pattern and \<^verbatim>\<open>v<base>-bscotch.0\<close> is not a version, as for the base version
  \<^verbatim>\<open>1.0\<close>, it returns the version \<^verbatim>\<open>null\<close> and the tag \<^verbatim>\<open>vnull\<close>.
\<close>

theorem base_version_never_rejected:
  "(resolveNext b tags = Inl e \<longleftrightarrow> resolveNext b' tags = Inl e)
   \<and> (marker_tags tags = [] \<and> parse (''v'' @ b @ ''-bscotch.0'') = None
        \<longrightarrow> resolveNext b tags = Inr (None, ''vnull''))"
proof
  show "resolveNext b tags = Inl e \<longleftrightarrow> resolveNext b' tags = Inl e"
    by (simp add: resolveNext_fails)
  show "marker_tags tags = [] \<and> parse (''v'' @ b @ ''-bscotch.0'') = None
        \<longrightarrow> resolveNext b tags = Inr (None, ''vnull'')"
    by (simp add: resolveNext_none outcome_def semver_inc_def template_string_def)
qed

theorem base_version_never_rejected_witness:
  "marker_tags [''v0.9.0''] = []
   \<and> parse ''v1.0-bscotch.0'' = None
   \<and> resolveNext ''1.0'' [''v0.9.0''] = Inr (None, ''vnull'')
   \<and> (resolveNext ''1.0'' [''v0.9.0''] = Inl TypeError)
       = (resolveNext ''1.0.0'' [''v0.9.0''] = Inl TypeError)"
proof -
  have m: "marker_tags [''v0.9.0''] = []" by code_simp
  have p: "parse (''v'' @ ''1.0'' @ ''-bscotch.0'') = None" by code_simp
  have p': "parse ''v1.0-bscotch.0'' = None" by code_simp
  note t = base_version_never_rejected [of "''1.0''" "[''v0.9.0'']" TypeError "''1.0.0''"]
  from t have e: "(resolveNext ''1.0'' [''v0.9.0''] = Inl TypeError)
       = (resolveNext ''1.0.0'' [''v0.9.0''] = Inl TypeError)" by (rule conjunct1)
  from t m p have r: "resolveNext ''1.0'' [''v0.9.0''] = Inr (None, ''vnull'')" by blast
  from m p' r e show ?thesis by (intro conjI)
qed

theorem base_version_counterexample:
  "parse ''1.0'' = None
   \<and> \<not> is_base ''1.0''
   \<and> resolveNext ''1.0'' [] = Inr (None, ''vnull'')
   \<and> \<not> is_base ''1.0.0-alpha''
   \<and> resolveNext ''1.0.0-alpha'' [] = Inr (Some ''1.0.0-bscotch.0'', ''v1.0.0-bscotch.0'')"
  by code_simp

text \<open>
  Claim C8, as amended. The resolution fails, with the \<^verbatim>\<open>TypeError\<close> that
  \<^verbatim>\<open>semver.compare\<close> throws inside the sort, exactly when at least two tags match the
  marker pattern \<^verbatim>\<open>v*-bscotch.*\<close> and at least one of them is not a version, whatever
  the base version of that tag. A single matching tag that is not a version is no error,
  and tags that do not match the pattern never cause one.
\<close>

theorem fails_on_unparsable_among_several:
  "resolveNext b tags = Inl e \<longleftrightarrow>
     2 \<le> length (marker_tags tags) \<and> (\<exists>t\<in>set (marker_tags tags). parse t = None)"
  by (rule resolveNext_fails)

theorem fails_on_unparsable_among_several_witness:
  "2 \<le> length (marker_tags [''v1.0.0-bscotch.0'', ''nightly'', ''vjunk-bscotch.x''])
   \<and> ''vjunk-bscotch.x'' \<in> set (marker_tags [''v1.0.0-bscotch.0'', ''nightly'', ''vjunk-bscotch.x''])
   \<and> parse ''vjunk-bscotch.x'' = None
   \<and> resolveNext ''1.0.0'' [''v1.0.0-bscotch.0'', ''nightly'', ''vjunk-bscotch.x''] = Inl TypeError"
proof -
  have l: "2 \<le> length (marker_tags [''v1.0.0-bscotch.0'', ''nightly'', ''vjunk-bscotch.x''])"
    by code_simp
  have i: "''vjunk-bscotch.x'' \<in> set (marker_tags [''v1.0.0-bscotch.0'', ''nightly'', ''vjunk-bscotch.x''])"
    by code_simp
  have p: "parse ''vjunk-bscotch.x'' = None" by code_simp
  from i p have "\<exists>t\<in>set (marker_tags [''v1.0.0-bscotch.0'', ''nightly'', ''vjunk-bscotch.x'']).
      parse t = None" by blast
  with fails_on_unparsable_among_several
    [of "''1.0.0''" "[''v1.0.0-bscotch.0'', ''nightly'', ''vjunk-bscotch.x'']" TypeError] l i p
  show ?thesis by simp
qed

theorem tag_format_counterexample:
  "is_base ''1.0.0''
   \<and> startsWith ''v1.0.0-bscotch.01'' ''v1.0.0-bscotch.''
   \<and> parse ''v1.0.0-bscotch.01'' = None
   \<and> resolveNext ''1.0.0'' [''v1.0.0-bscotch.01''] = Inr (None, ''vnull'')
   \<and> \<not> startsWith ''vjunk-bscotch.x'' ''v1.0.0-''
   \<and> \<not> in_family ''1.0.0'' ''vjunk-bscotch.x''
   \<and> resolveNext ''1.0.0'' [''v1.0.0-bscotch.0'', ''vjunk-bscotch.x''] = Inl TypeError"
  by code_simp

text \<open>
  Claim C9, as amended. For every valid base version \<open>B\<close> and every tag list whose tags
  matching the marker pattern all have the form \<^verbatim>\<open>v<major>.<minor>.<patch>-bscotch.<N>\<close>,
  the form the script creates, the resolution succeeds and returns one tag of the form
  \<^verbatim>\<open>v<B>-bscotch.<N>\<close>, \<open>N\<close> a decimal numeral, and the version is the tag without
  its \<^verbatim>\<open>v\<close>.
\<close>

theorem output_form:
  assumes "is_base b" and "\<forall>t\<in>set (marker_tags tags). script_tag t"
  shows "\<exists>nv nt. resolveNext b tags = Inr (Some nv, nt) \<and> nt = ''v'' @ nv \<and> is_release_tag b nt"
proof -
  have r1: "\<exists>nv nt. outcome b m = Inr (Some nv, nt) \<and> nt = ''v'' @ nv \<and> is_release_tag b nt"
    if "m = [] \<or> \<not> startsWith m (''v'' @ b @ ''-'')" for m
    using outcome_fallback [OF assms(1) that] is_release_tag_iff [of b "release_tag b 1"]
    by (auto simp: release_tag_def)
  have r2: "\<exists>nv nt. outcome b (release_tag b n) = Inr (Some nv, nt) \<and> nt = ''v'' @ nv \<and> is_release_tag b nt"
    for n
    using outcome_release_tag [OF assms(1), of n] is_release_tag_iff [of b "release_tag b (Suc n)"]
    by (auto simp: release_tag_def)
  show ?thesis
  proof (cases "marker_tags tags = []")
    case True
    then show ?thesis using r1 [of "[]"] by (simp add: resolveNext_none)
  next
    case False
    have ok: "\<forall>t\<in>set (marker_tags tags). parse t \<noteq> None"
      using assms(2) script_tagD parse_script_tag by blast
    from resolveNext_valid [OF False ok, of b] obtain m where
      m: "resolveNext b tags = outcome b m" "m \<in> set (marker_tags tags)" by blast
    from m(2) assms(2) obtain b' n where bn: "is_base b'" "m = release_tag b' n"
      using script_tagD by blast
    show ?thesis
    proof (cases "startsWith m (''v'' @ b @ ''-'')")
      case True
      with bn have "b' = b" using base_of_release_tag [OF assms(1)] by blast
      with bn m(1) r2 [of n] show ?thesis by simp
    next
      case False
      with m(1) r1 [of m] show ?thesis by simp
    qed
  qed
qed

theorem output_form_witness:
  "is_base ''1.0.0''
   \<and> list_all script_tag (marker_tags [''v1.0.0-bscotch.9'', ''v0.9.0-bscotch.30'', ''v1.0.0-bscotch.10''])
   \<and> resolveNext ''1.0.0'' [''v1.0.0-bscotch.9'', ''v0.9.0-bscotch.30'', ''v1.0.0-bscotch.10'']
       = Inr (Some ''1.0.0-bscotch.11'', ''v1.0.0-bscotch.11'')
   \<and> (\<exists>nv nt. resolveNext ''1.0.0'' [''v1.0.0-bscotch.9'', ''v0.9.0-bscotch.30'', ''v1.0.0-bscotch.10'']
          = Inr (Some nv, nt) \<and> nt = ''v'' @ nv \<and> is_release_tag ''1.0.0'' nt)"
proof -
  have b: "is_base ''1.0.0''" by code_simp
  have l: "list_all script_tag
      (marker_tags [''v1.0.0-bscotch.9'', ''v0.9.0-bscotch.30'', ''v1.0.0-bscotch.10''])"
    by code_simp
  then have h: "\<forall>t\<in>set (marker_tags [''v1.0.0-bscotch.9'', ''v0.9.0-bscotch.30'', ''v1.0.0-bscotch.10'']).
      script_tag t" by (simp add: list_all_iff)
  have r: "resolveNext ''1.0.0'' [''v1.0.0-bscotch.9'', ''v0.9.0-bscotch.30'', ''v1.0.0-bscotch.10'']
       = Inr (Some ''1.0.0-bscotch.11'', ''v1.0.0-bscotch.11'')" by code_simp
  from output_form [OF b h] b l r show ?thesis by blast
qed

theorem output_form_counterexample:
  "is_base ''1.0.0''
   \<and> resolveNext ''1.0.0'' [''v1.0.0-bscotch.1.2'']
       = Inr (Some ''1.0.0-bscotch.1.3'', ''v1.0.0-bscotch.1.3'')
   \<and> \<not> is_release_tag ''1.0.0'' ''v1.0.0-bscotch.1.3''"
  by code_simp

text \<open>
  Claim C10. The result depends on the tag list only through a greatest tag among the
  tags matching the marker pattern \<^verbatim>\<open>v*-bscotch.*\<close>: two tag lists with the same
  greatest matching tag, or both without a matching tag, give the same version and tag
  for the same base version, whatever tags lie below that greatest tag.
\<close>

theorem depends_on_greatest_tag:
  assumes "(greatest_marker_tag tags1 t \<and> greatest_marker_tag tags2 t)
         \<or> (marker_tags tags1 = [] \<and> marker_tags tags2 = [])"
  shows "resolveNext b tags1 = resolveNext b tags2"
  using assms
proof
  assume "greatest_marker_tag tags1 t \<and> greatest_marker_tag tags2 t"
  then have "resolveNext b tags1 = outcome b t" "resolveNext b tags2 = outcome b t"
    using resolveNext_greatest by blast+
  then show ?thesis by simp
next
  assume "marker_tags tags1 = [] \<and> marker_tags tags2 = []"
  then show ?thesis by (simp add: resolveNext_none)
qed

theorem depends_on_greatest_tag_witness:
  "is_base ''1.0.0''
   \<and> greatest_marker_tag [''v1.0.0-bscotch.2'', ''v1.0.0-bscotch.0'', ''v1.0.0-bscotch.1''] ''v1.0.0-bscotch.2''
   \<and> greatest_marker_tag [''v0.9.0-bscotch.7'', ''v1.0.0-bscotch.2''] ''v1.0.0-bscotch.2''
   \<and> resolveNext ''1.0.0'' [''v1.0.0-bscotch.2'', ''v1.0.0-bscotch.0'', ''v1.0.0-bscotch.1'']
       = resolveNext ''1.0.0'' [''v0.9.0-bscotch.7'', ''v1.0.0-bscotch.2'']
   \<and> resolveNext ''1.0.0'' [''v0.9.0-bscotch.7'', ''v1.0.0-bscotch.2'']
       = Inr (Some ''1.0.0-bscotch.3'', ''v1.0.0-bscotch.3'')"
proof -
  have b: "is_base ''1.0.0''" by code_simp
  have g1: "greatest_marker_tag [''v1.0.0-bscotch.2'', ''v1.0.0-bscotch.0'', ''v1.0.0-bscotch.1''] ''v1.0.0-bscotch.2''"
    by code_simp
  have g2: "greatest_marker_tag [''v0.9.0-bscotch.7'', ''v1.0.0-bscotch.2''] ''v1.0.0-bscotch.2''"
    by code_simp
  have r: "resolveNext ''1.0.0'' [''v0.9.0-bscotch.7'', ''v1.0.0-bscotch.2'']
       = Inr (Some ''1.0.0-bscotch.3'', ''v1.0.0-bscotch.3'')" by code_simp
  from g1 g2 have h: "(greatest_marker_tag [''v1.0.0-bscotch.2'', ''v1.0.0-bscotch.0'', ''v1.0.0-bscotch.1''] ''v1.0.0-bscotch.2''
      \<and> greatest_marker_tag [''v0.9.0-bscotch.7'', ''v1.0.0-bscotch.2''] ''v1.0.0-bscotch.2'')
     \<or> (marker_tags [''v1.0.0-bscotch.2'', ''v1.0.0-bscotch.0'', ''v1.0.0-bscotch.1''] = []
        \<and> marker_tags [''v0.9.0-bscotch.7'', ''v1.0.0-bscotch.2''] = [])" by simp
  from depends_on_greatest_tag [OF h, of "''1.0.0''"] b g1 g2 r show ?thesis by simp
qed


end
